theory Spec2Isabelle
  imports Main "HOL-Library.AList" "HOL-Library.Multiset"
begin

section \<open>JavaScript values\<close>

text \<open>
  The values that filters, payloads and milestone templates hold. \<open>Undefined\<close> is
  needed because \<open>repoSlug[1]\<close> is \<open>undefined\<close> for a slug without a separator and is
  stored in a payload as it is.
\<close>

datatype jsval = Undefined | Str string | Num int | Bool bool

text \<open>
  An object whose keys are chosen at run time (filters, payloads, templates) is an
  association list in insertion order. Assigning a property replaces the value of an
  existing key in place and appends a new key, which is what \<open>AList.update\<close> does.
\<close>

type_synonym obj = "(string \<times> jsval) list"

definition extend_obj :: "obj \<Rightarrow> obj \<Rightarrow> obj" where
  \<comment> \<open>Modelled from the spec: \<open>_.extend(dst, src)\<close> of the Underscore library, which
      the repository depends on. It merges \<open>src\<close> over \<open>dst\<close>, the values of \<open>src\<close>
      winning: \<open>for (prop in src) dst[prop] = src[prop]\<close>. It assigns into \<open>dst\<close> and
      returns \<open>dst\<close> itself; the callers below decide whether \<open>dst\<close> is a new object
      or an existing one.\<close>
  "extend_obj dst src = fold (\<lambda>(k, v). AList.update k v) src dst"

text \<open>
  \<open>xs[i]\<close> on an array of strings: \<open>undefined\<close> (here \<open>None\<close>) out of range.
\<close>

definition js_nth :: "string list \<Rightarrow> nat \<Rightarrow> string option" where
  "js_nth xs i = (if i < length xs then Some (xs ! i) else None)"

definition ToString :: "string option \<Rightarrow> string" where
  \<comment> \<open>What \<open>+\<close> does to a string-or-undefined operand next to a string.\<close>
  "ToString v = (case v of None \<Rightarrow> ''undefined'' | Some s \<Rightarrow> s)"

definition val :: "string option \<Rightarrow> jsval" where
  "val v = (case v of None \<Rightarrow> Undefined | Some s \<Rightarrow> Str s)"

fun split :: "char \<Rightarrow> string \<Rightarrow> string list" where
  \<comment> \<open>\<open>s.split(c)\<close> for a one-character separator: one more segment than separators.\<close>
  "split c [] = [[]]"
| "split c (x # xs) =
     (if x = c then [] # split c xs
      else (case split c xs of [] \<Rightarrow> [[x]] | w # ws \<Rightarrow> (x # w) # ws))"

datatype js_exception = TypeError | ReferenceError

section \<open>Construction\<close>

definition convertSlugsToObjects :: "string list \<Rightarrow> string list list" where
  "convertSlugsToObjects slugs = map (\<lambda>slug. split CHR ''/'' slug) slugs"

record sprinter =
  username :: string
  password :: string
  repos :: "string list list"

definition Sprinter :: "string \<Rightarrow> string \<Rightarrow> string list \<Rightarrow> js_exception + sprinter" where
  \<comment> \<open>No statement of the constructor raises on an array of strings; the client handle
      \<open>this.gh\<close> is the external collaborator and is not part of the object here.\<close>
  "Sprinter u p repoSlugs =
     Inr \<lparr>username = u, password = p, repos = convertSlugsToObjects repoSlugs\<rparr>"

definition spec_well_formed_slug :: "string \<Rightarrow> bool" where
  \<comment> \<open>The specification's words: exactly one separator, producing two non-empty segments.\<close>
  "spec_well_formed_slug s \<longleftrightarrow>
     count_list s CHR ''/'' = 1 \<and> takeWhile (\<lambda>c. c \<noteq> CHR ''/'') s \<noteq> []
     \<and> tl (dropWhile (\<lambda>c. c \<noteq> CHR ''/'') s) \<noteq> []"

definition repo_slug :: "string list \<Rightarrow> string" where
  \<comment> \<open>\<open>org + '/' + repo\<close> with \<open>org = repoSlug[0]\<close> and \<open>repo = repoSlug[1]\<close>.\<close>
  "repo_slug repoSlug = ToString (js_nth repoSlug 0) @ ''/'' @ ToString (js_nth repoSlug 1)"

section \<open>Remote items, errors and the remote client\<close>

text \<open>
  Issues, milestones and error objects come from the remote client. The code reads
  and writes a fixed set of their properties, so they are records: \<open>repo\<close> is the
  property the aggregations assign (absent, \<open>None\<close>, until then), \<open>props\<close> holds
  every property the code never touches. \<open>updated_at\<close> is the time value that
  \<open>new Date(issue.updated_at)\<close> has; an issue whose field is not a date is outside
  the model.
\<close>

record js_object =
  repo :: "string option"
  props :: obj

record issue = js_object +
  updated_at :: int

record milestone = js_object +
  number :: int
  title :: string

type_synonym js_error = js_object

text \<open>
  The remote client is called through four methods. It builds its request from the
  payload while it is being called, and answers later, through its callback, with an
  error or a result; \<open>repoIssues gh i\<close> is the answer to the call that the \<open>i\<close>-th
  parallel task makes.
\<close>

record remote =
  repoIssues :: "nat \<Rightarrow> js_error + issue list"
  getAllMilestones :: "nat \<Rightarrow> js_error + milestone list"
  updateMilestone :: "nat \<Rightarrow> js_error + milestone"
  createMilestone :: "nat \<Rightarrow> js_error + milestone"

text \<open>
  The calls made on the client are logged with the payload as it is at the time of the
  call. \<open>getIssues\<close> updates its filter object in place, so that object lives in a
  store and its call is logged with the address too; the other payloads are object
  literals built for one call.
\<close>

datatype api_call =
    RepoIssues nat obj
  | GetAllMilestones obj
  | UpdateMilestone obj
  | CreateMilestone obj

record world =
  heap :: "obj list"
  log :: "api_call list"

section \<open>Parallel tasks\<close>

text \<open>
  What a task does when the answer to its remote call arrives: it calls its callback
  with an error, calls it with a value, or raises.
\<close>

datatype ('e, 'a) reply = Fail 'e | Succ 'a | Throw js_exception

text \<open>
  What the caller of an operation observes: its callback called with an error (and
  whatever second argument comes with it), called with data, an exception nobody
  catches, or no call at all.
\<close>

datatype ('e, 'd, 'p) outcome = Failure 'e 'p | Success 'd | Uncaught js_exception | Pending

text \<open>
  Modelled from the spec: \<open>async.parallel(tasks, callback)\<close> of the async library,
  which the repository depends on; it is the fan-out executor of the specification.
  Every task is started at once; the answers arrive in the order \<open>sched\<close> (task
  indices). A value is stored in the slot of its task, \<open>results[index] = v\<close>; the
  first error calls the callback with the error, and later answers are ignored; when
  every task has answered with a value the callback gets the slots in task order. Each
  task answers at most once, so the library's count of answers reaches the number of
  tasks exactly when every slot is filled. Beyond what the specification says, the
  library hands the slots filled so far to the callback together with an error;
  \<open>getIssues\<close> and \<open>getMilestones\<close> drop them (lines 98 and 129).
\<close>

fun settle :: "('e, 'a) reply list \<Rightarrow> 'a option list \<Rightarrow> nat list
    \<Rightarrow> ('e, 'a list, 'a option list) outcome" where
  "settle rs slots [] = Pending"
| "settle rs slots (i # sched) =
     (if i < length rs then
        (case rs ! i of
           Throw x \<Rightarrow> Uncaught x
         | Fail e \<Rightarrow> Failure e slots
         | Succ v \<Rightarrow>
             (let slots' = slots[i := Some v]
              in case those slots' of
                   Some vs \<Rightarrow> Success vs
                 | None \<Rightarrow> settle rs slots' sched))
      else settle rs slots sched)"

definition async_parallel :: "('e, 'a) reply list \<Rightarrow> nat list
    \<Rightarrow> ('e, 'a list, 'a option list) outcome" where
  "async_parallel rs sched =
     (if rs = [] then Success [] else settle rs (replicate (length rs) None) sched)"

definition answers_once :: "nat \<Rightarrow> nat list \<Rightarrow> bool" where
  \<comment> \<open>A schedule in which each of \<open>n\<close> tasks answers, once.\<close>
  "answers_once n sched \<longleftrightarrow> distinct sched \<and> set sched = {..<n}"

text \<open>Starting the tasks one after the other; each may change the world.\<close>

fun start_all :: "('x \<Rightarrow> world \<Rightarrow> 'r \<times> world) \<Rightarrow> 'x list \<Rightarrow> world \<Rightarrow> 'r list \<times> world" where
  "start_all f [] w = ([], w)"
| "start_all f (x # xs) w =
     (case f x w of (r, w1) \<Rightarrow> (case start_all f xs w1 of (rs, w2) \<Rightarrow> (r # rs, w2)))"

definition eachRepo ::
  "(nat \<Rightarrow> string option \<Rightarrow> string option \<Rightarrow> world \<Rightarrow> ('e, 'a) reply \<times> world)
    \<Rightarrow> sprinter \<Rightarrow> nat list \<Rightarrow> world \<Rightarrow> ('e, 'a list, 'a option list) outcome \<times> world" where
  \<comment> \<open>\<open>Sprinter.prototype._eachRepo\<close>; \<open>fn\<close> gets the index of its task as well.\<close>
  "eachRepo fn me sched w =
     (case start_all (\<lambda>(i, repoSlug). fn i (js_nth repoSlug 0) (js_nth repoSlug 1))
             (enumerate 0 (repos me)) w of
        (funcs, w1) \<Rightarrow> (async_parallel funcs sched, w1))"

definition flatten :: "'a list list \<Rightarrow> 'a list" where
  \<comment> \<open>Modelled from the spec: \<open>_.flatten\<close> of Underscore, the result flattener, on an
      array of arrays of objects: the inner sequences one after the other.\<close>
  "flatten data = concat data"

definition flatten_slots :: "'a list option list \<Rightarrow> 'a option list" where
  \<comment> \<open>\<open>_.flatten\<close> on the slots that come with an error: an empty slot stays one
      \<open>undefined\<close> element. Both aggregations discard this value.\<close>
  "flatten_slots data = concat (map (\<lambda>s. case s of None \<Rightarrow> [None] | Some xs \<Rightarrow> map Some xs) data)"

definition eachRepoFlattened ::
  "(nat \<Rightarrow> string option \<Rightarrow> string option \<Rightarrow> world \<Rightarrow> ('e, 'a list) reply \<times> world)
    \<Rightarrow> sprinter \<Rightarrow> nat list \<Rightarrow> world \<Rightarrow> ('e, 'a list, 'a option list) outcome \<times> world" where
  \<comment> \<open>\<open>Sprinter.prototype._eachRepoFlattened\<close>: \<open>mainCallback(err, _.flatten(data))\<close>.\<close>
  "eachRepoFlattened fn me sched w =
     (case eachRepo fn me sched w of
        (Failure err data, w1) \<Rightarrow> (Failure err (flatten_slots data), w1)
      | (Success data, w1) \<Rightarrow> (Success (flatten data), w1)
      | (Uncaught x, w1) \<Rightarrow> (Uncaught x, w1)
      | (Pending, w1) \<Rightarrow> (Pending, w1))"

section \<open>Issues\<close>

definition sortBy :: "('a \<Rightarrow> int) \<Rightarrow> 'a list \<Rightarrow> 'a list" where
  \<comment> \<open>Modelled from the spec: \<open>_.sortBy\<close> of Underscore, a stable sort. It sorts
      ascending by the criterion and leaves elements with equal criteria in their
      original order (since version 1.4 it compares their indices then).\<close>
  "sortBy f xs = sort_key f xs"

definition sortIssues :: "issue list \<Rightarrow> issue list" where
  "sortIssues issues = rev (sortBy updated_at issues)"

definition getIssues_task :: "remote \<Rightarrow> nat \<Rightarrow> nat \<Rightarrow> string option \<Rightarrow> string option
    \<Rightarrow> world \<Rightarrow> (js_error, issue list) reply \<times> world" where
  \<comment> \<open>The function of lines 80 to 95, for the filter object at address \<open>filters\<close>.
      \<open>_.extend(filters, {user: org, repo: repo})\<close> assigns into that object and
      returns it, so \<open>localFilters\<close> is \<open>filters\<close>.\<close>
  "getIssues_task gh filters i = (\<lambda>org repo w.
      let w1 = w\<lparr>heap := (heap w)[filters :=
                  extend_obj (heap w ! filters) [(''user'', val org), (''repo'', val repo)]]\<rparr>;
          localFilters = filters;
          w2 = w1\<lparr>log := log w1 @ [RepoIssues localFilters (heap w1 ! localFilters)]\<rparr>
      in (case repoIssues gh i of
            Inl err \<Rightarrow> Fail (err\<lparr>repo := Some (ToString org @ ''/'' @ ToString repo)\<rparr>)
          | Inr issues \<Rightarrow>
              Succ (map (\<lambda>issue. issue\<lparr>repo := Some (ToString org @ ''/'' @ ToString repo)\<rparr>)
                     issues),
          w2))"

definition getIssues :: "sprinter \<Rightarrow> nat option \<Rightarrow> remote \<Rightarrow> nat list \<Rightarrow> world
    \<Rightarrow> (js_error, issue list, unit) outcome \<times> world" where
  \<comment> \<open>\<open>userFilters\<close> is the address of the caller's object, \<open>None\<close> when the caller
      passes none (an address outside the store stands for no object).
      \<open>_.extend({state: 'open'}, userFilters)\<close> fills a new object, stored at the next
      free address \<open>filters\<close>.\<close>
  "getIssues me userFilters gh sched w =
     (let filters = length (heap w);
          src = (case userFilters of
                   None \<Rightarrow> []
                 | Some a \<Rightarrow> (if a < length (heap w) then heap w ! a else []));
          w0 = w\<lparr>heap := heap w @ [extend_obj [(''state'', Str ''open'')] src]\<rparr>
      in case eachRepoFlattened (getIssues_task gh filters) me sched w0 of
        (Failure err issues, w3) \<Rightarrow> (Failure err (), w3)
      | (Success issues, w3) \<Rightarrow> (Success (sortIssues issues), w3)
      | (Uncaught x, w3) \<Rightarrow> (Uncaught x, w3)
      | (Pending, w3) \<Rightarrow> (Pending, w3))"

section \<open>Milestones\<close>

definition groupBy :: "('a \<Rightarrow> string) \<Rightarrow> 'a list \<Rightarrow> (string \<times> 'a list) list" where
  \<comment> \<open>Modelled from the spec: \<open>_.groupBy\<close> of Underscore. It makes a new object with
      one own property per key, holding the elements of that key in their order.\<close>
  "groupBy f xs =
     fold (\<lambda>x result.
             case map_of result (f x) of
               None \<Rightarrow> result @ [(f x, [x])]
             | Some members \<Rightarrow> AList.update (f x) (members @ [x]) result)
          xs []"

definition getMilestones_task :: "remote \<Rightarrow> nat \<Rightarrow> string option \<Rightarrow> string option
    \<Rightarrow> world \<Rightarrow> (js_error, milestone list) reply \<times> world" where
  \<comment> \<open>The function of lines 112 to 126.\<close>
  "getMilestones_task gh i = (\<lambda>org repo w.
     (case getAllMilestones gh i of
        Inl err \<Rightarrow> Fail (err\<lparr>repo := Some (ToString org @ ''/'' @ ToString repo)\<rparr>)
      | Inr milestones \<Rightarrow>
          Succ (map (\<lambda>milestone. milestone\<lparr>repo := Some (ToString org @ ''/'' @ ToString repo)\<rparr>)
                 milestones),
      w\<lparr>log := log w @ [GetAllMilestones [(''user'', val org), (''repo'', val repo)]]\<rparr>))"

definition getMilestones :: "sprinter \<Rightarrow> remote \<Rightarrow> nat list \<Rightarrow> world
    \<Rightarrow> (js_error, (string \<times> milestone list) list, unit) outcome \<times> world" where
  "getMilestones me gh sched w =
     (case eachRepoFlattened (getMilestones_task gh) me sched w of
        (Failure err milestones, w1) \<Rightarrow> (Failure err (), w1)
      | (Success milestones, w1) \<Rightarrow> (Success (groupBy title milestones), w1)
      | (Uncaught x, w1) \<Rightarrow> (Uncaught x, w1)
      | (Pending, w1) \<Rightarrow> (Pending, w1))"

text \<open>
  \<open>milestones[title]\<close> reads a property of the plain object that \<open>_.groupBy\<close> made: an
  own property if there is one, else what the object inherits from
  \<open>Object.prototype\<close>, else \<open>undefined\<close>. The inherited members are functions, of
  which only the number of declared parameters (\<open>length\<close>) matters below, and
  \<open>__proto__\<close>, the prototype object itself.
\<close>

datatype inherited = Fn nat | Proto

definition Object_prototype :: "(string \<times> inherited) list" where
  "Object_prototype =
     [(''constructor'', Fn 1), (''toString'', Fn 0), (''toLocaleString'', Fn 0),
      (''valueOf'', Fn 0), (''hasOwnProperty'', Fn 1), (''isPrototypeOf'', Fn 1),
      (''propertyIsEnumerable'', Fn 1), (''__defineGetter__'', Fn 2),
      (''__defineSetter__'', Fn 2), (''__lookupGetter__'', Fn 1),
      (''__lookupSetter__'', Fn 1), (''__proto__'', Proto)]"

datatype 'a property = Own 'a | Inherited inherited | Absent

definition js_get :: "(string \<times> 'a) list \<Rightarrow> string \<Rightarrow> 'a property" where
  "js_get object key =
     (case map_of object key of
        Some v \<Rightarrow> Own v
      | None \<Rightarrow> (case map_of Object_prototype key of
                   Some m \<Rightarrow> Inherited m
                 | None \<Rightarrow> Absent))"

definition updater :: "remote \<Rightarrow> nat \<times> milestone \<times> string list
    \<Rightarrow> world \<Rightarrow> (js_error, milestone) reply \<times> world" where
  \<comment> \<open>The function of lines 154 to 169, for the \<open>i\<close>-th match and its split slug. In the
      handler of a failed update \<open>org\<close> and \<open>repo\<close> are not in scope (line 163): reading
      \<open>org\<close> raises before \<open>localCallback\<close> is reached.\<close>
  "updater gh = (\<lambda>(i, match, splitSlug) w.
     (case updateMilestone gh i of
        Inl err \<Rightarrow> Throw ReferenceError
      | Inr resp \<Rightarrow> Succ resp,
      w\<lparr>log := log w @
         [UpdateMilestone
            [(''user'', val (js_nth splitSlug 0)),
             (''repo'', val (js_nth splitSlug 1)),
             (''number'', Num (number match)),
             (''title'', Str (title match)),
             (''state'', Str ''closed'')]]\<rparr>))"

definition closeMilestones :: "sprinter \<Rightarrow> string \<Rightarrow> remote \<Rightarrow> nat list \<Rightarrow> nat list \<Rightarrow> world
    \<Rightarrow> (js_error, milestone list, milestone option list) outcome \<times> world" where
  \<comment> \<open>\<open>sched\<close> orders the answers to \<open>getMilestones\<close>, \<open>sched'\<close> those to the updates.
      Line 144 reads \<open>milestones[title]\<close> before line 145 tests \<open>err\<close>; with an error
      \<open>milestones\<close> is \<open>undefined\<close> and the read raises. \<open>_.map(matches, ...)\<close> runs before
      any update is sent: over an array it visits the elements (\<open>match.repo.split\<close> raises
      on a match without \<open>repo\<close>), over a function its indices below \<open>length\<close> (each
      \<open>undefined\<close>, so \<open>match.repo\<close> raises), over the prototype object nothing. The
      \<open>console.log\<close> of line 151 is left out.\<close>
  "closeMilestones me title' gh sched sched' w =
     (case getMilestones me gh sched w of
        (Uncaught x, w1) \<Rightarrow> (Uncaught x, w1)
      | (Pending, w1) \<Rightarrow> (Pending, w1)
      | (Failure err u, w1) \<Rightarrow> (Uncaught TypeError, w1)
      | (Success milestones, w1) \<Rightarrow>
          (case js_get milestones title' of
             Absent \<Rightarrow> (Success [], w1)
           | Inherited (Fn n) \<Rightarrow>
               (if n = 0 then (async_parallel [] sched', w1) else (Uncaught TypeError, w1))
           | Inherited Proto \<Rightarrow> (async_parallel [] sched', w1)
           | Own matches \<Rightarrow>
               (case those (map (\<lambda>match. map_option (split CHR ''/'') (repo match)) matches) of
                  None \<Rightarrow> (Uncaught TypeError, w1)
                | Some splitSlugs \<Rightarrow>
                    (case start_all (updater gh) (enumerate 0 (zip matches splitSlugs)) w1 of
                       (updaters, w2) \<Rightarrow> (async_parallel updaters sched', w2)))))"

definition createMilestones_task :: "remote \<Rightarrow> obj \<Rightarrow> nat \<Rightarrow> string option \<Rightarrow> string option
    \<Rightarrow> world \<Rightarrow> (js_error, milestone) reply \<times> world" where
  \<comment> \<open>The function of lines 184 to 197. The payload is a new object: the literal
      \<open>{user: org, repo: repo}\<close> with the milestone's properties assigned over it.\<close>
  "createMilestones_task gh milestone i = (\<lambda>org repo w.
      let payload = extend_obj [(''user'', val org), (''repo'', val repo)] milestone
      in (case createMilestone gh i of
            Inl err \<Rightarrow> Fail (err\<lparr>repo := Some (ToString org @ ''/'' @ ToString repo)\<rparr>)
          | Inr result \<Rightarrow> Succ result,
          w\<lparr>log := log w @ [CreateMilestone payload]\<rparr>))"

definition createMilestones :: "sprinter \<Rightarrow> obj \<Rightarrow> remote \<Rightarrow> nat list \<Rightarrow> world
    \<Rightarrow> (js_error, milestone list, milestone option list) outcome \<times> world" where
  "createMilestones me milestone gh sched w =
     eachRepo (createMilestones_task gh milestone) me sched w"

section \<open>Example inputs\<close>

text \<open>
  One and two configured repositories, an empty store with no calls made, and a remote
  client given by the lists of its answers, task by task (beyond a list, an empty
  result for a read and an error for a write).
\<close>

definition two_repos :: sprinter where
  "two_repos = \<lparr>username = ''user'', password = ''secret'',
                 repos = convertSlugsToObjects [''a/x'', ''b/y'']\<rparr>"

definition one_repo :: sprinter where
  "one_repo = \<lparr>username = ''user'', password = ''secret'',
                repos = convertSlugsToObjects [''a/x'']\<rparr>"

definition start :: world where
  "start = \<lparr>heap = [], log = []\<rparr>"

definition issue_at :: "int \<Rightarrow> int \<Rightarrow> issue" where
  "issue_at n t = \<lparr>repo = None, props = [(''number'', Num n)], updated_at = t\<rparr>"

definition sprint :: "int \<Rightarrow> string \<Rightarrow> milestone" where
  "sprint n t = \<lparr>repo = None, props = [], number = n, title = t\<rparr>"

definition boom :: js_error where
  "boom = \<lparr>repo = None, props = [(''message'', Str ''Server Error'')]\<rparr>"

definition answers :: "'a list \<Rightarrow> 'a \<Rightarrow> nat \<Rightarrow> 'a" where
  "answers xs d i = (if i < length xs then xs ! i else d)"

definition client :: "(js_error + issue list) list \<Rightarrow> (js_error + milestone list) list
    \<Rightarrow> (js_error + milestone) list \<Rightarrow> (js_error + milestone) list \<Rightarrow> remote" where
  "client is ms us cs =
     \<lparr>repoIssues = answers is (Inr []), getAllMilestones = answers ms (Inr []),
      updateMilestone = answers us (Inl boom), createMilestone = answers cs (Inl boom)\<rparr>"

section \<open>Properties of construction\<close>

lemma split_no_sep: "c \<notin> set s \<Longrightarrow> split c s = [s]"
  by (induction s) auto

lemma split_at_sep: "c \<notin> set a \<Longrightarrow> split c (a @ c # b) = a # split c b"
  by (induction a) auto

lemma split_length: "length (split c s) = Suc (count_list s c)"
  by (induction s) (auto split: list.splits)

lemma well_formed_slug_parts:
  assumes "spec_well_formed_slug s"
  obtains org repo where "org \<noteq> []" "repo \<noteq> []" "CHR ''/'' \<notin> set org" "CHR ''/'' \<notin> set repo"
    "s = org @ ''/'' @ repo"
proof -
  let ?p = "\<lambda>c. c \<noteq> CHR ''/''"
  let ?org = "takeWhile ?p s" and ?rest = "dropWhile ?p s"
  from assms have cnt: "count_list s CHR ''/'' = 1" and o: "?org \<noteq> []" and r: "tl ?rest \<noteq> []"
    by (simp_all add: spec_well_formed_slug_def)
  from r have "?rest \<noteq> []" by (metis list.sel(2))
  then have hd: "hd ?rest = CHR ''/''" using hd_dropWhile[of ?p s] by simp
  with \<open>?rest \<noteq> []\<close> have rest: "?rest = CHR ''/'' # tl ?rest" by (cases ?rest) auto
  have s: "s = ?org @ CHR ''/'' # tl ?rest"
    using takeWhile_dropWhile_id[of ?p s] rest by metis
  have no: "CHR ''/'' \<notin> set ?org" using set_takeWhileD by fastforce
  have "count_list s CHR ''/'' = count_list ?org CHR ''/'' + 1 + count_list (tl ?rest) CHR ''/''"
    by (subst s) simp
  with cnt have "count_list (tl ?rest) CHR ''/'' = 0" by simp
  then have nr: "CHR ''/'' \<notin> set (tl ?rest)" by (simp add: count_list_0_iff)
  show ?thesis using that[of ?org "tl ?rest"] o r no nr s by simp
qed

lemma split_well_formed_slug:
  assumes "spec_well_formed_slug s"
  shows "\<exists>org repo. org \<noteq> [] \<and> repo \<noteq> [] \<and> s = org @ ''/'' @ repo \<and> split CHR ''/'' s = [org, repo]"
proof -
  from assms obtain org repo where p: "org \<noteq> []" "repo \<noteq> []" "CHR ''/'' \<notin> set org"
    "CHR ''/'' \<notin> set repo" "s = org @ ''/'' @ repo"
    by (rule well_formed_slug_parts)
  have "split CHR ''/'' s = [org, repo]"
    using p(3,4,5) by (simp add: split_at_sep split_no_sep)
  with p show ?thesis by blast
qed

text \<open>
  The tag that the aggregations attach is the configured slug itself when the slug is
  well formed.
\<close>

lemma repo_slug_split:
  assumes "spec_well_formed_slug s"
  shows "repo_slug (split CHR ''/'' s) = s"
proof -
  from split_well_formed_slug [OF assms] obtain org repo
    where "s = org @ ''/'' @ repo" "split CHR ''/'' s = [org, repo]" by blast
  then show ?thesis by (simp add: repo_slug_def js_nth_def ToString_def)
qed

text \<open>
  C5, first half, fails: the constructor does not validate slugs. The slug \<open>abc\<close> has
  no separator, and construction succeeds with the one-element entry \<open>["abc"]\<close>.
\<close>

theorem Sprinter_malformed_counterexample:
  "\<not> spec_well_formed_slug ''abc'' \<and>
   Sprinter ''u'' ''p'' [''abc''] = Inr \<lparr>username = ''u'', password = ''p'', repos = [[''abc'']]\<rparr>"
  by (simp add: spec_well_formed_slug_def Sprinter_def convertSlugsToObjects_def)

text \<open>
  C5 as amended: constructing the orchestrator never fails on slug strings. It yields
  one entry per slug, same length and same order, each entry the slug split at every
  separator; for a slug with exactly one separator and two non-empty segments the entry
  is the pair of organization and repository.
\<close>

theorem Sprinter_splits_every_slug:
  "\<exists>me. Sprinter u p slugs = Inr me \<and> length (repos me) = length slugs \<and>
     (\<forall>i<length slugs.
        repos me ! i = split CHR ''/'' (slugs ! i) \<and>
        (spec_well_formed_slug (slugs ! i) \<longrightarrow>
           (\<exists>org repo. org \<noteq> [] \<and> repo \<noteq> [] \<and> slugs ! i = org @ ''/'' @ repo \<and>
              repos me ! i = [org, repo])))"
  using split_well_formed_slug
  by (simp add: Sprinter_def convertSlugsToObjects_def)

theorem Sprinter_splits_every_slug_witness:
  "(0::nat) < length [''a/x''] \<and> spec_well_formed_slug ([''a/x''] ! 0) \<and>
   (\<exists>me. Sprinter ''u'' ''p'' [''a/x''] = Inr me \<and> length (repos me) = 1 \<and>
      (\<exists>org repo. org \<noteq> [] \<and> repo \<noteq> [] \<and> ''a/x'' = org @ ''/'' @ repo \<and> repos me ! 0 = [org, repo]))"
proof -
  have wf: "spec_well_formed_slug ([''a/x''] ! 0)"
    by (simp add: spec_well_formed_slug_def)
  from Sprinter_splits_every_slug [of "''u''" "''p''" "[''a/x'']"]
  obtain me where me: "Sprinter ''u'' ''p'' [''a/x''] = Inr me" "length (repos me) = length [''a/x'']"
    and each: "\<forall>i<length [''a/x''].
        repos me ! i = split CHR ''/'' ([''a/x''] ! i) \<and>
        (spec_well_formed_slug ([''a/x''] ! i) \<longrightarrow>
           (\<exists>org repo. org \<noteq> [] \<and> repo \<noteq> [] \<and> [''a/x''] ! i = org @ ''/'' @ repo \<and>
              repos me ! i = [org, repo]))"
    by blast
  from each wf have "\<exists>org repo. org \<noteq> [] \<and> repo \<noteq> [] \<and> [''a/x''] ! 0 = org @ ''/'' @ repo \<and>
              repos me ! 0 = [org, repo]"
    by simp
  with me wf show ?thesis by auto
qed

section \<open>Properties of parallel tasks\<close>

lemma those_eq_Some: "those xs = Some ys \<longleftrightarrow> xs = map Some ys"
  by (induction xs arbitrary: ys) (auto split: option.splits)

lemma those_eq_None: "those xs = None \<longleftrightarrow> None \<in> set xs"
  by (induction xs) (auto split: option.splits)

lemma settle_all_succeed:
  assumes "length slots = length rs" "length vs = length rs"
    and "\<forall>i<length rs. rs ! i = Succ (vs ! i)"
    and "\<forall>i<length rs. slots ! i = None \<or> slots ! i = Some (vs ! i)"
    and "None \<in> set slots"
    and "\<forall>i<length rs. slots ! i = None \<longrightarrow> i \<in> set sched"
  shows "settle rs slots sched = Success vs"
  using assms
proof (induction sched arbitrary: slots)
  case Nil
  then show ?case by (auto simp: in_set_conv_nth)
next
  case (Cons i sched)
  show ?case
  proof (cases "i < length rs")
    case False
    have "\<forall>j<length rs. slots ! j = None \<longrightarrow> j \<in> set sched"
      using Cons.prems(6) False by auto
    with Cons.IH[of slots] Cons.prems False show ?thesis by simp
  next
    case True
    let ?slots = "slots[i := Some (vs ! i)]"
    have ri: "rs ! i = Succ (vs ! i)" using Cons.prems(3) True by simp
    have inv: "\<forall>j<length rs. ?slots ! j = None \<or> ?slots ! j = Some (vs ! j)"
    proof (intro allI impI)
      fix j assume "j < length rs"
      with Cons.prems(1,4) show "?slots ! j = None \<or> ?slots ! j = Some (vs ! j)"
        by (cases "j = i") auto
    qed
    show ?thesis
    proof (cases "those ?slots")
      case None
      then have n: "None \<in> set ?slots" by (simp add: those_eq_None)
      have cover: "\<forall>j<length rs. ?slots ! j = None \<longrightarrow> j \<in> set sched"
      proof (intro allI impI)
        fix j assume "j < length rs" "?slots ! j = None"
        with Cons.prems(1,6) True show "j \<in> set sched"
          by (cases "j = i") auto
      qed
      have "settle rs ?slots sched = Success vs"
        using Cons.IH[of ?slots] Cons.prems(1,2,3) inv n cover by simp
      with True ri None show ?thesis by simp
    next
      case (Some ws)
      then have eq: "?slots = map Some ws" by (simp add: those_eq_Some)
      have len: "length ws = length rs" using eq Cons.prems(1) by (metis length_list_update length_map)
      have "ws ! j = vs ! j" if "j < length rs" for j
      proof -
        have "?slots ! j = Some (ws ! j)" using eq that len by simp
        with inv that show ?thesis by auto
      qed
      then have "ws = vs" using len Cons.prems(2) by (simp add: list_eq_iff_nth_eq)
      with True ri Some show ?thesis by simp
    qed
  qed
qed

lemma async_parallel_all_succeed:
  assumes "length vs = length rs"
    and "\<forall>i<length rs. rs ! i = Succ (vs ! i)"
    and "answers_once (length rs) sched"
  shows "async_parallel rs sched = Success vs"
proof (cases "rs = []")
  case True
  with assms show ?thesis by (simp add: async_parallel_def)
next
  case False
  have "settle rs (replicate (length rs) None) sched = Success vs"
  proof (rule settle_all_succeed)
    show "None \<in> set (replicate (length rs) None)" using False by simp
    show "\<forall>i<length rs. replicate (length rs) None ! i = None \<longrightarrow> i \<in> set sched"
      using assms(3) by (simp add: answers_once_def)
  qed (use assms in simp_all)
  with False show ?thesis by (simp add: async_parallel_def)
qed

lemma settle_one_fails:
  assumes "k < length rs" "rs ! k = Fail e"
    and "\<forall>i<length rs. i \<noteq> k \<longrightarrow> (\<exists>v. rs ! i = Succ v)"
    and "k \<in> set sched" "length slots = length rs" "slots ! k = None"
  shows "\<exists>p. settle rs slots sched = Failure e p"
  using assms
proof (induction sched arbitrary: slots)
  case Nil
  then show ?case by simp
next
  case (Cons i sched)
  show ?case
  proof (cases "i = k")
    case True
    with Cons.prems show ?thesis by simp
  next
    case False
    with Cons.prems have k: "k \<in> set sched" by simp
    show ?thesis
    proof (cases "i < length rs")
      case outside: False
      with Cons.IH[of slots] Cons.prems k show ?thesis by simp
    next
      case True
      with Cons.prems(3) False obtain v where v: "rs ! i = Succ v" by blast
      let ?slots = "slots[i := Some v]"
      have "?slots ! k = None" using False Cons.prems(6) by simp
      moreover have "k < length ?slots" using Cons.prems(1,5) by simp
      ultimately have "None \<in> set ?slots" by (metis nth_mem)
      then have "those ?slots = None" by (simp add: those_eq_None)
      moreover have "\<exists>p. settle rs ?slots sched = Failure e p"
        using Cons.IH[of ?slots] Cons.prems(1,2,3,5,6) k False by simp
      ultimately show ?thesis using True v by simp
    qed
  qed
qed

lemma async_parallel_one_fails:
  assumes "k < length rs" "rs ! k = Fail e"
    and "\<forall>i<length rs. i \<noteq> k \<longrightarrow> (\<exists>v. rs ! i = Succ v)"
    and "answers_once (length rs) sched"
  shows "\<exists>p. async_parallel rs sched = Failure e p"
proof -
  have "rs \<noteq> []" using assms(1) by auto
  moreover have "k \<in> set sched" using assms(1,4) by (simp add: answers_once_def)
  ultimately show ?thesis
    using settle_one_fails[OF assms(1,2,3), of sched "replicate (length rs) None"] assms(1)
    by (simp add: async_parallel_def)
qed

lemma settle_Success:
  assumes "settle rs slots sched = Success vs" and "length slots = length rs"
    and "\<forall>i<length rs. \<forall>v. slots ! i = Some v \<longrightarrow> rs ! i = Succ v"
  shows "length vs = length rs \<and> (\<forall>i<length rs. rs ! i = Succ (vs ! i))"
  using assms
proof (induction sched arbitrary: slots)
  case Nil
  then show ?case by simp
next
  case (Cons i sched)
  show ?case
  proof (cases "i < length rs")
    case False
    with Cons.prems have "settle rs slots sched = Success vs" by simp
    from Cons.IH[OF this Cons.prems(2,3)] show ?thesis .
  next
    case True
    from Cons.prems(1) True obtain v where v: "rs ! i = Succ v"
      by (cases "rs ! i") auto
    let ?slots = "slots[i := Some v]"
    have inv: "\<forall>j<length rs. \<forall>u. ?slots ! j = Some u \<longrightarrow> rs ! j = Succ u"
    proof (intro allI impI)
      fix j u assume "j < length rs" "?slots ! j = Some u"
      with Cons.prems(2,3) v show "rs ! j = Succ u" by (cases "j = i") auto
    qed
    show ?thesis
    proof (cases "those ?slots")
      case None
      with Cons.prems(1) True v have "settle rs ?slots sched = Success vs" by simp
      from Cons.IH[OF this _ inv] Cons.prems(2) show ?thesis by simp
    next
      case (Some ws)
      with Cons.prems(1) True v have "ws = vs" by simp
      with Some have eq: "?slots = map Some vs" by (simp add: those_eq_Some)
      then have len: "length vs = length rs"
        using Cons.prems(2) by (metis length_list_update length_map)
      have "rs ! j = Succ (vs ! j)" if "j < length rs" for j
      proof -
        have "?slots ! j = Some (vs ! j)" using eq that len by simp
        with inv that show ?thesis by blast
      qed
      with len show ?thesis by blast
    qed
  qed
qed

lemma async_parallel_Success:
  assumes "async_parallel rs sched = Success vs"
  shows "length vs = length rs \<and> (\<forall>i<length rs. rs ! i = Succ (vs ! i))"
proof (cases "rs = []")
  case True
  with assms show ?thesis by (simp add: async_parallel_def)
next
  case False
  with assms have "settle rs (replicate (length rs) None) sched = Success vs"
    by (simp add: async_parallel_def)
  then show ?thesis by (rule settle_Success) simp_all
qed

lemma settle_Failure:
  assumes "settle rs slots sched = Failure e p"
  shows "\<exists>i<length rs. rs ! i = Fail e"
  using assms
proof (induction sched arbitrary: slots)
  case Nil
  then show ?case by simp
next
  case (Cons i sched)
  show ?case
  proof (cases "i < length rs")
    case False
    with Cons show ?thesis by simp
  next
    case True
    show ?thesis
    proof (cases "rs ! i")
      case (Fail e')
      with Cons.prems True show ?thesis by auto
    next
      case (Succ v)
      with Cons.prems True have "settle rs (slots[i := Some v]) sched = Failure e p"
        by (simp add: Let_def split: option.splits)
      then show ?thesis by (rule Cons.IH)
    next
      case (Throw x)
      with Cons.prems True show ?thesis by simp
    qed
  qed
qed

lemma async_parallel_Failure:
  assumes "async_parallel rs sched = Failure e p"
  shows "\<exists>i<length rs. rs ! i = Fail e"
  using assms settle_Failure[of rs "replicate (length rs) None" sched e p]
  by (simp add: async_parallel_def split: if_splits)

lemma settle_one_throws:
  assumes "k < length rs" "rs ! k = Throw x"
    and "\<forall>i<length rs. (\<exists>v. rs ! i = Succ v) \<or> rs ! i = Throw x"
    and "k \<in> set sched" "length slots = length rs" "slots ! k = None"
  shows "settle rs slots sched = Uncaught x"
  using assms
proof (induction sched arbitrary: slots)
  case Nil
  then show ?case by simp
next
  case (Cons i sched)
  show ?case
  proof (cases "i < length rs")
    case False
    with Cons.prems have "k \<in> set sched" by auto
    with Cons.IH[of slots] Cons.prems False show ?thesis by simp
  next
    case True
    show ?thesis
    proof (cases "rs ! i = Throw x")
      case thrown: True
      with True show ?thesis by simp
    next
      case False
      with Cons.prems(3) True obtain v where v: "rs ! i = Succ v" by blast
      from False Cons.prems(2) have ik: "i \<noteq> k" by auto
      with Cons.prems(4) have k: "k \<in> set sched" by simp
      let ?slots = "slots[i := Some v]"
      have "?slots ! k = None" using ik Cons.prems(6) by simp
      moreover have "k < length ?slots" using Cons.prems(1,5) by simp
      ultimately have "None \<in> set ?slots" by (metis nth_mem)
      then have "those ?slots = None" by (simp add: those_eq_None)
      moreover have "settle rs ?slots sched = Uncaught x"
        using Cons.IH[of ?slots] Cons.prems(1,2,3,5,6) k ik by simp
      ultimately show ?thesis using True v by simp
    qed
  qed
qed

lemma async_parallel_one_throws:
  assumes "k < length rs" "rs ! k = Throw x"
    and "\<forall>i<length rs. (\<exists>v. rs ! i = Succ v) \<or> rs ! i = Throw x"
    and "answers_once (length rs) sched"
  shows "async_parallel rs sched = Uncaught x"
proof -
  have "rs \<noteq> []" using assms(1) by auto
  moreover have "k \<in> set sched" using assms(1,4) by (simp add: answers_once_def)
  ultimately show ?thesis
    using settle_one_throws[OF assms(1,2,3), of sched "replicate (length rs) None"] assms(1)
    by (simp add: async_parallel_def)
qed

section \<open>Properties of the issue aggregation\<close>

lemma start_all_replies:
  assumes "start_all f xs w = (rs, w')" and "\<And>x w. fst (f x w) = g x"
  shows "rs = map g xs"
  using assms
proof (induction xs arbitrary: w rs w')
  case Nil
  then show ?case by simp
next
  case (Cons x xs)
  obtain r w1 where f: "f x w = (r, w1)" by (cases "f x w")
  obtain rs' w2 where s: "start_all f xs w1 = (rs', w2)" by (cases "start_all f xs w1")
  from Cons.prems(1) f s have "rs = r # rs'" by simp
  moreover have "r = g x" using Cons.prems(2)[of x w] f by simp
  moreover have "rs' = map g xs" using Cons.IH[OF s Cons.prems(2)] .
  ultimately show ?case by simp
qed

lemma map_enumerate_upt:
  "map f (enumerate 0 xs) = map (\<lambda>i. f (i, xs ! i)) [0..<length xs]"
proof (rule nth_equalityI)
  show "length (map f (enumerate 0 xs)) = length (map (\<lambda>i. f (i, xs ! i)) [0..<length xs])"
    by simp
next
  fix i assume "i < length (map f (enumerate 0 xs))"
  then have "i < length xs" by simp
  then show "map f (enumerate 0 xs) ! i = map (\<lambda>i. f (i, xs ! i)) [0..<length xs] ! i"
    by (simp add: nth_enumerate_eq)
qed

lemma eachRepo_outcome:
  assumes "\<And>i org repo w. fst (fn i org repo w) = g i org repo"
  shows "fst (eachRepo fn me sched w) =
     async_parallel (map (\<lambda>i. g i (js_nth (repos me ! i) 0) (js_nth (repos me ! i) 1))
                       [0..<length (repos me)]) sched"
proof -
  let ?f = "\<lambda>(i, repoSlug). fn i (js_nth repoSlug 0) (js_nth repoSlug 1)"
  obtain funcs w1 where s: "start_all ?f (enumerate 0 (repos me)) w = (funcs, w1)"
    by (cases "start_all ?f (enumerate 0 (repos me)) w")
  have "funcs = map (\<lambda>(i, repoSlug). g i (js_nth repoSlug 0) (js_nth repoSlug 1)) (enumerate 0 (repos me))"
    by (rule start_all_replies[OF s]) (auto simp: assms)
  then have "funcs = map (\<lambda>i. g i (js_nth (repos me ! i) 0) (js_nth (repos me ! i) 1)) [0..<length (repos me)]"
    by (simp add: map_enumerate_upt)
  with s show ?thesis by (simp add: eachRepo_def)
qed

lemma eachRepoFlattened_outcome:
  assumes "\<And>i org repo w. fst (fn i org repo w) = g i org repo"
  shows "fst (eachRepoFlattened fn me sched w) =
     (case async_parallel (map (\<lambda>i. g i (js_nth (repos me ! i) 0) (js_nth (repos me ! i) 1))
                       [0..<length (repos me)]) sched of
        Failure err data \<Rightarrow> Failure err (flatten_slots data)
      | Success data \<Rightarrow> Success (flatten data)
      | Uncaught x \<Rightarrow> Uncaught x
      | Pending \<Rightarrow> Pending)"
proof -
  obtain r w1 where e: "eachRepo fn me sched w = (r, w1)" by (cases "eachRepo fn me sched w")
  then have "r = async_parallel (map (\<lambda>i. g i (js_nth (repos me ! i) 0) (js_nth (repos me ! i) 1))
                       [0..<length (repos me)]) sched"
    using eachRepo_outcome[of fn g me sched w, OF assms] by simp
  with e show ?thesis by (simp add: eachRepoFlattened_def split: outcome.splits)
qed

text \<open>What a task of \<open>getIssues\<close> answers: the error or the issues, tagged.\<close>

lemma getIssues_task_reply:
  "fst (getIssues_task gh filters i org rep w) =
     (case repoIssues gh i of
        Inl err \<Rightarrow> Fail (err\<lparr>repo := Some (ToString org @ ''/'' @ ToString rep)\<rparr>)
      | Inr issues \<Rightarrow> Succ (map (\<lambda>issue. issue\<lparr>repo := Some (ToString org @ ''/'' @ ToString rep)\<rparr>) issues))"
  by (simp add: getIssues_task_def Let_def)

lemma getIssues_outcome:
  "fst (getIssues me userFilters gh sched w) =
     (case async_parallel
             (map (\<lambda>i. case repoIssues gh i of
                     Inl err \<Rightarrow> Fail (err\<lparr>repo := Some (repo_slug (repos me ! i))\<rparr>)
                   | Inr issues \<Rightarrow>
                       Succ (map (\<lambda>issue. issue\<lparr>repo := Some (repo_slug (repos me ! i))\<rparr>) issues))
                [0..<length (repos me)]) sched of
        Failure err data \<Rightarrow> Failure err ()
      | Success data \<Rightarrow> Success (sortIssues (flatten data))
      | Uncaught x \<Rightarrow> Uncaught x
      | Pending \<Rightarrow> Pending)"
proof -
  let ?filters = "length (heap w)"
  let ?w0 = "w\<lparr>heap := heap w @ [extend_obj [(''state'', Str ''open'')]
      (case userFilters of None \<Rightarrow> [] | Some a \<Rightarrow> if a < length (heap w) then heap w ! a else [])]\<rparr>"
  obtain r w3 where e: "eachRepoFlattened (getIssues_task gh ?filters) me sched ?w0 = (r, w3)"
    by (cases "eachRepoFlattened (getIssues_task gh ?filters) me sched ?w0")
  have "fst (eachRepoFlattened (getIssues_task gh ?filters) me sched ?w0) = r"
    using e by simp
  then have r: "r = (case async_parallel
             (map (\<lambda>i. case repoIssues gh i of
                     Inl err \<Rightarrow> Fail (err\<lparr>repo := Some (repo_slug (repos me ! i))\<rparr>)
                   | Inr issues \<Rightarrow>
                       Succ (map (\<lambda>issue. issue\<lparr>repo := Some (repo_slug (repos me ! i))\<rparr>) issues))
                [0..<length (repos me)]) sched of
        Failure err data \<Rightarrow> Failure err (flatten_slots data)
      | Success data \<Rightarrow> Success (flatten data)
      | Uncaught x \<Rightarrow> Uncaught x
      | Pending \<Rightarrow> Pending)"
    unfolding repo_slug_def
    by (subst (asm) eachRepoFlattened_outcome[OF getIssues_task_reply]) simp
  have "fst (getIssues me userFilters gh sched w) =
     (case r of Failure err issues \<Rightarrow> Failure err () | Success issues \<Rightarrow> Success (sortIssues issues)
      | Uncaught x \<Rightarrow> Uncaught x | Pending \<Rightarrow> Pending)"
    using e by (simp add: getIssues_def Let_def split: outcome.splits)
  then show ?thesis unfolding r by (simp split: outcome.splits)
qed


lemma sortIssues_mset: "mset (sortIssues issues) = mset issues"
  by (simp add: sortIssues_def sortBy_def)

lemma sortIssues_descending: "sorted_wrt (\<ge>) (map updated_at (sortIssues issues))"
proof -
  have "sorted (rev (map updated_at (sortIssues issues)))"
    by (simp add: sortIssues_def sortBy_def rev_map)
  then show ?thesis by (simp add: sorted_wrt_rev)
qed

lemma sortIssues_ties:
  "filter (\<lambda>issue. updated_at issue = t) (sortIssues issues) =
     rev (filter (\<lambda>issue. updated_at issue = t) issues)"
  by (simp add: sortIssues_def sortBy_def sort_key_stable flip: rev_filter)

lemma getIssues_succeeds:
  assumes "answers_once (length (repos me)) sched"
    and "\<forall>i<length (repos me). repoIssues gh i = Inr (found i)"
  shows "fst (getIssues me userFilters gh sched w) =
     Success (sortIssues (concat (map (\<lambda>i. map (\<lambda>issue. issue\<lparr>repo := Some (repo_slug (repos me ! i))\<rparr>)
                                             (found i))
                                    [0..<length (repos me)])))"
proof -
  let ?n = "length (repos me)"
  let ?rs = "map (\<lambda>i. case repoIssues gh i of
                     Inl err \<Rightarrow> Fail (err\<lparr>repo := Some (repo_slug (repos me ! i))\<rparr>)
                   | Inr issues \<Rightarrow>
                       Succ (map (\<lambda>issue. issue\<lparr>repo := Some (repo_slug (repos me ! i))\<rparr>) issues))
                [0..<?n]"
  let ?vs = "map (\<lambda>i. map (\<lambda>issue. issue\<lparr>repo := Some (repo_slug (repos me ! i))\<rparr>) (found i)) [0..<?n]"
  have "async_parallel ?rs sched = Success ?vs"
  proof (rule async_parallel_all_succeed)
    show "length ?vs = length ?rs" by simp
    show "\<forall>i<length ?rs. ?rs ! i = Succ (?vs ! i)" using assms(2) by simp
    show "answers_once (length ?rs) sched" using assms(1) by simp
  qed
  then show ?thesis by (simp add: getIssues_outcome flatten_def)
qed

text \<open>
  C2: when every task answers and exactly one repository's \<open>repoIssues\<close> call fails,
  \<open>getIssues\<close> fails with that one error, carrying the slug \<open>org/repo\<close> of the
  repository whose call failed, whatever the order of the answers; no issue comes with
  it (the second argument is dropped at lines 97 and 98).
\<close>

theorem getIssues_one_repo_fails:
  assumes "answers_once (length (repos me)) sched"
    and "k < length (repos me)" and "repoIssues gh k = Inl err"
    and "\<forall>i<length (repos me). i \<noteq> k \<longrightarrow> (\<exists>issues. repoIssues gh i = Inr issues)"
  shows "fst (getIssues me userFilters gh sched w) =
     Failure (err\<lparr>repo := Some (repo_slug (repos me ! k))\<rparr>) ()"
proof -
  let ?n = "length (repos me)"
  let ?rs = "map (\<lambda>i. case repoIssues gh i of
                     Inl err \<Rightarrow> Fail (err\<lparr>repo := Some (repo_slug (repos me ! i))\<rparr>)
                   | Inr issues \<Rightarrow>
                       Succ (map (\<lambda>issue. issue\<lparr>repo := Some (repo_slug (repos me ! i))\<rparr>) issues))
                [0..<?n]"
  have "\<exists>p. async_parallel ?rs sched = Failure (err\<lparr>repo := Some (repo_slug (repos me ! k))\<rparr>) p"
  proof (rule async_parallel_one_fails)
    show "k < length ?rs" using assms(2) by simp
    show "?rs ! k = Fail (err\<lparr>repo := Some (repo_slug (repos me ! k))\<rparr>)"
      using assms(2,3) by simp
    show "\<forall>i<length ?rs. i \<noteq> k \<longrightarrow> (\<exists>v. ?rs ! i = Succ v)"
      using assms(4) by auto
    show "answers_once (length ?rs) sched" using assms(1) by simp
  qed
  then show ?thesis by (auto simp: getIssues_outcome)
qed

theorem getIssues_one_repo_fails_witness:
  "answers_once 2 [1, 0] \<and>
   repoIssues (client [Inr [issue_at 1 20], Inl boom] [] [] []) 1 = Inl boom \<and>
   repoIssues (client [Inr [issue_at 1 20], Inl boom] [] [] []) 0 = Inr [issue_at 1 20] \<and>
   fst (getIssues two_repos None (client [Inr [issue_at 1 20], Inl boom] [] [] []) [1, 0] start) =
     Failure (boom\<lparr>repo := Some ''b/y''\<rparr>) ()"
proof -
  let ?gh = "client [Inr [issue_at 1 20], Inl boom] [] [] []"
  have n: "length (repos two_repos) = 2"
    by (simp add: two_repos_def convertSlugsToObjects_def)
  have once: "answers_once (length (repos two_repos)) [1, 0]"
    unfolding n by (auto simp: answers_once_def)
  have k: "(1::nat) < length (repos two_repos)" unfolding n by simp
  have bad: "repoIssues ?gh 1 = Inl boom" by (simp add: client_def answers_def)
  have good: "repoIssues ?gh 0 = Inr [issue_at 1 20]" by (simp add: client_def answers_def)
  have rest: "\<forall>i<length (repos two_repos). i \<noteq> 1 \<longrightarrow> (\<exists>issues. repoIssues ?gh i = Inr issues)"
    unfolding n using good by (auto simp: less_Suc_eq numeral_2_eq_2)
  have slug: "repo_slug (repos two_repos ! 1) = ''b/y''"
    by (simp add: two_repos_def convertSlugsToObjects_def repo_slug_def js_nth_def ToString_def)
  from getIssues_one_repo_fails [OF once k bad rest, of None start] slug once bad good n
  show ?thesis by simp
qed

text \<open>
  C3: when every repository's call succeeds, \<open>getIssues\<close> returns as many issues as
  the repositories returned together, and the returned issues are, with multiplicity,
  the issues of each repository tagged with the slug \<open>org/repo\<close> of that repository.
\<close>

theorem getIssues_all_repos_succeed:
  assumes "answers_once (length (repos me)) sched"
    and "\<forall>i<length (repos me). repoIssues gh i = Inr (found i)"
  shows "\<exists>issues. fst (getIssues me userFilters gh sched w) = Success issues \<and>
     length issues = sum_list (map (\<lambda>i. length (found i)) [0..<length (repos me)]) \<and>
     mset issues =
       mset (concat (map (\<lambda>i. map (\<lambda>issue. issue\<lparr>repo := Some (repo_slug (repos me ! i))\<rparr>) (found i))
                       [0..<length (repos me)]))"
proof -
  let ?tagged = "concat (map (\<lambda>i. map (\<lambda>issue. issue\<lparr>repo := Some (repo_slug (repos me ! i))\<rparr>) (found i))
                       [0..<length (repos me)])"
  have m: "mset (sortIssues ?tagged) = mset ?tagged" by (rule sortIssues_mset)
  then have "length (sortIssues ?tagged) = length ?tagged" by (rule mset_eq_length)
  also have "\<dots> = sum_list (map (\<lambda>i. length (found i)) [0..<length (repos me)])"
    by (simp add: length_concat comp_def)
  finally show ?thesis using getIssues_succeeds [OF assms] m by blast
qed

theorem getIssues_all_repos_succeed_witness:
  "answers_once 2 [1, 0] \<and>
   repoIssues (client [Inr [issue_at 1 20], Inr [issue_at 2 10, issue_at 3 30]] [] [] []) 0
     = Inr [issue_at 1 20] \<and>
   repoIssues (client [Inr [issue_at 1 20], Inr [issue_at 2 10, issue_at 3 30]] [] [] []) 1
     = Inr [issue_at 2 10, issue_at 3 30] \<and>
   (\<exists>issues.
      fst (getIssues two_repos None
             (client [Inr [issue_at 1 20], Inr [issue_at 2 10, issue_at 3 30]] [] [] []) [1, 0] start)
        = Success issues \<and>
      length issues = 3 \<and>
      mset issues = {#(issue_at 1 20)\<lparr>repo := Some ''a/x''\<rparr>, (issue_at 2 10)\<lparr>repo := Some ''b/y''\<rparr>,
                      (issue_at 3 30)\<lparr>repo := Some ''b/y''\<rparr>#})"
proof -
  let ?gh = "client [Inr [issue_at 1 20], Inr [issue_at 2 10, issue_at 3 30]] [] [] []"
  let ?found = "answers [[issue_at 1 20], [issue_at 2 10, issue_at 3 30]] []"
  have n: "length (repos two_repos) = 2"
    by (simp add: two_repos_def convertSlugsToObjects_def)
  have once: "answers_once (length (repos two_repos)) [1, 0]"
    unfolding n by (auto simp: answers_once_def)
  have r0: "repoIssues ?gh 0 = Inr [issue_at 1 20]"
    and r1: "repoIssues ?gh 1 = Inr [issue_at 2 10, issue_at 3 30]"
    by (simp_all add: client_def answers_def)
  have all: "\<forall>i<length (repos two_repos). repoIssues ?gh i = Inr (?found i)"
    unfolding n using r0 r1 by (auto simp: less_Suc_eq numeral_2_eq_2 answers_def)
  have slugs: "repo_slug (repos two_repos ! 0) = ''a/x''" "repo_slug (repos two_repos ! Suc 0) = ''b/y''"
    by (simp_all add: two_repos_def convertSlugsToObjects_def repo_slug_def js_nth_def ToString_def)
  have upt: "[0..<length (repos two_repos)] = [0, 1]"
    unfolding n by (simp add: upt_rec)
  from getIssues_all_repos_succeed [OF once all, of None start]
  obtain issues where "fst (getIssues two_repos None ?gh [1, 0] start) = Success issues"
    "length issues = sum_list (map (\<lambda>i. length (?found i)) [0..<length (repos two_repos)])"
    "mset issues = mset (concat (map (\<lambda>i. map (\<lambda>issue. issue\<lparr>repo := Some (repo_slug (repos two_repos ! i))\<rparr>)
                                             (?found i)) [0..<length (repos two_repos)]))"
    by blast
  then have "fst (getIssues two_repos None ?gh [1, 0] start) = Success issues \<and>
      length issues = 3 \<and>
      mset issues = {#(issue_at 1 20)\<lparr>repo := Some ''a/x''\<rparr>, (issue_at 2 10)\<lparr>repo := Some ''b/y''\<rparr>,
                      (issue_at 3 30)\<lparr>repo := Some ''b/y''\<rparr>#}"
    unfolding upt by (simp add: answers_def slugs)
  with once r0 r1 n show ?thesis by auto
qed

text \<open>
  C4, the stability half, fails: \<open>sortIssues\<close> reverses a stable ascending sort, so
  issues with equal \<open>updated_at\<close> come out in the reverse of the order in which they
  were met. The repository answers with issue 1 before issue 2, both updated at time 5;
  \<open>getIssues\<close> returns issue 2 before issue 1.
\<close>

theorem getIssues_ties_counterexample:
  "repoIssues (client [Inr [issue_at 1 5, issue_at 2 5]] [] [] []) 0 = Inr [issue_at 1 5, issue_at 2 5] \<and>
   updated_at (issue_at 1 5) = updated_at (issue_at 2 5) \<and>
   fst (getIssues one_repo None (client [Inr [issue_at 1 5, issue_at 2 5]] [] [] []) [0] start) =
     Success [(issue_at 2 5)\<lparr>repo := Some ''a/x''\<rparr>, (issue_at 1 5)\<lparr>repo := Some ''a/x''\<rparr>]"
  by (simp add: getIssues_def getIssues_task_def eachRepoFlattened_def eachRepo_def
      async_parallel_def one_repo_def start_def client_def answers_def issue_at_def
      convertSlugsToObjects_def js_nth_def ToString_def val_def extend_obj_def flatten_def
      sortIssues_def sortBy_def Let_def)

text \<open>
  C4 as amended: the sequence returned by \<open>getIssues\<close> on success is sorted
  non-increasing by \<open>updated_at\<close>, and issues with equal \<open>updated_at\<close> appear in the
  reverse of their encounter order (repository order, then order within the
  repository).
\<close>

theorem getIssues_newest_first_ties_reversed:
  assumes "answers_once (length (repos me)) sched"
    and "\<forall>i<length (repos me). repoIssues gh i = Inr (found i)"
  shows "\<exists>issues. fst (getIssues me userFilters gh sched w) = Success issues \<and>
     sorted_wrt (\<ge>) (map updated_at issues) \<and>
     (\<forall>t. filter (\<lambda>issue. updated_at issue = t) issues =
          rev (filter (\<lambda>issue. updated_at issue = t)
                 (concat (map (\<lambda>i. map (\<lambda>issue. issue\<lparr>repo := Some (repo_slug (repos me ! i))\<rparr>) (found i))
                            [0..<length (repos me)]))))"
  using getIssues_succeeds [OF assms] sortIssues_descending sortIssues_ties by blast


theorem getIssues_newest_first_ties_reversed_witness:
  "answers_once 2 [0, 1] \<and>
   repoIssues (client [Inr [issue_at 1 5, issue_at 2 5]] [] [] []) 0 = Inr [issue_at 1 5, issue_at 2 5] \<and>
   repoIssues (client [Inr [issue_at 1 5, issue_at 2 5]] [] [] []) 1 = Inr [] \<and>
   (\<exists>issues.
      fst (getIssues two_repos None (client [Inr [issue_at 1 5, issue_at 2 5]] [] [] []) [0, 1] start)
        = Success issues \<and>
      sorted_wrt (\<ge>) (map updated_at issues) \<and>
      filter (\<lambda>issue. updated_at issue = 5) issues =
        [(issue_at 2 5)\<lparr>repo := Some ''a/x''\<rparr>, (issue_at 1 5)\<lparr>repo := Some ''a/x''\<rparr>])"
proof -
  let ?gh = "client [Inr [issue_at 1 5, issue_at 2 5]] [] [] []"
  let ?found = "answers [[issue_at 1 5, issue_at 2 5]] []"
  have n: "length (repos two_repos) = 2"
    by (simp add: two_repos_def convertSlugsToObjects_def)
  have once: "answers_once (length (repos two_repos)) [0, 1]"
    unfolding n by (auto simp: answers_once_def)
  have r0: "repoIssues ?gh 0 = Inr [issue_at 1 5, issue_at 2 5]"
    and r1: "repoIssues ?gh 1 = Inr []"
    by (simp_all add: client_def answers_def)
  have all: "\<forall>i<length (repos two_repos). repoIssues ?gh i = Inr (?found i)"
    unfolding n using r0 r1 by (auto simp: less_Suc_eq numeral_2_eq_2 answers_def)
  have slugs: "repo_slug (repos two_repos ! 0) = ''a/x''"
    by (simp_all add: two_repos_def convertSlugsToObjects_def repo_slug_def js_nth_def ToString_def)
  have upt: "[0..<length (repos two_repos)] = [0, 1]"
    unfolding n by (simp add: upt_rec)
  from getIssues_newest_first_ties_reversed [OF once all, of None start]
  obtain issues where i: "fst (getIssues two_repos None ?gh [0, 1] start) = Success issues"
    "sorted_wrt (\<ge>) (map updated_at issues)"
    and ties: "\<forall>t. filter (\<lambda>issue. updated_at issue = t) issues =
          rev (filter (\<lambda>issue. updated_at issue = t)
                 (concat (map (\<lambda>i. map (\<lambda>issue. issue\<lparr>repo := Some (repo_slug (repos two_repos ! i))\<rparr>) (?found i))
                            [0..<length (repos two_repos)])))"
    by blast
  from ties have "filter (\<lambda>issue. updated_at issue = 5) issues =
        [(issue_at 2 5)\<lparr>repo := Some ''a/x''\<rparr>, (issue_at 1 5)\<lparr>repo := Some ''a/x''\<rparr>]"
    unfolding upt by (simp add: answers_def slugs issue_at_def)
  with i once r0 r1 n show ?thesis by auto
qed

text \<open>
  The example of the specification: \<open>org/a\<close> has issue 1, updated later than issue 2
  of \<open>org/b\<close>; issue 1 comes first, each issue with the slug of its repository.
\<close>

lemma getIssues_spec_example:
  "fst (getIssues \<lparr>username = ''user'', password = ''secret'',
                    repos = convertSlugsToObjects [''org/a'', ''org/b'']\<rparr>
          None (client [Inr [issue_at 1 20], Inr [issue_at 2 10]] [] [] []) [1, 0] start) =
     Success [(issue_at 1 20)\<lparr>repo := Some ''org/a''\<rparr>, (issue_at 2 10)\<lparr>repo := Some ''org/b''\<rparr>]"
  by (simp add: getIssues_def getIssues_task_def eachRepoFlattened_def eachRepo_def
      async_parallel_def start_def client_def answers_def issue_at_def
      convertSlugsToObjects_def js_nth_def ToString_def val_def extend_obj_def flatten_def
      sortIssues_def sortBy_def Let_def)

section \<open>Properties of the store and of the calls made\<close>

lemma start_all_invariant:
  assumes "start_all f xs w = (rs, w')"
    and "\<And>x w. P w \<Longrightarrow> P (snd (f x w))" and "P w"
  shows "P w'"
  using assms
proof (induction xs arbitrary: w rs w')
  case Nil
  then show ?case by simp
next
  case (Cons x xs)
  obtain r w1 where f: "f x w = (r, w1)" by (cases "f x w")
  obtain rs' w2 where s: "start_all f xs w1 = (rs', w2)" by (cases "start_all f xs w1")
  from Cons.prems(1) f s have "w' = w2" by simp
  moreover have "P w1" using Cons.prems(2)[OF Cons.prems(3), of x] f by simp
  ultimately show ?case using Cons.IH[OF s Cons.prems(2)] by simp
qed

lemma eachRepo_invariant:
  assumes "\<And>i org rep w. P w \<Longrightarrow> P (snd (fn i org rep w))" and "P w"
  shows "P (snd (eachRepo fn me sched w))"
proof -
  let ?f = "\<lambda>(i, repoSlug). fn i (js_nth repoSlug 0) (js_nth repoSlug 1)"
  obtain funcs w1 where s: "start_all ?f (enumerate 0 (repos me)) w = (funcs, w1)"
    by (cases "start_all ?f (enumerate 0 (repos me)) w")
  have "P w1"
  proof (rule start_all_invariant[where P = P, OF s])
    show "P w" by (rule assms(2))
  next
    fix x :: "nat \<times> string list" and w' :: world
    assume "P w'"
    then show "P (snd (?f x w'))" by (cases x) (simp add: assms(1))
  qed
  with s show ?thesis by (simp add: eachRepo_def)
qed

lemma eachRepoFlattened_world:
  "snd (eachRepoFlattened fn me sched w) = snd (eachRepo fn me sched w)"
  by (cases "eachRepo fn me sched w") (simp add: eachRepoFlattened_def split: outcome.splits)

lemma getIssues_world:
  "snd (getIssues me userFilters gh sched w) =
   snd (eachRepo (getIssues_task gh (length (heap w))) me sched
     (w\<lparr>heap := heap w @ [extend_obj [(''state'', Str ''open'')]
        (case userFilters of None \<Rightarrow> [] | Some a \<Rightarrow> if a < length (heap w) then heap w ! a else [])]\<rparr>))"
proof -
  let ?w0 = "w\<lparr>heap := heap w @ [extend_obj [(''state'', Str ''open'')]
        (case userFilters of None \<Rightarrow> [] | Some a \<Rightarrow> if a < length (heap w) then heap w ! a else [])]\<rparr>"
  obtain r w3 where e: "eachRepoFlattened (getIssues_task gh (length (heap w))) me sched ?w0 = (r, w3)"
    by (cases "eachRepoFlattened (getIssues_task gh (length (heap w))) me sched ?w0")
  then have "snd (getIssues me userFilters gh sched w) = w3"
    by (simp add: getIssues_def Let_def split: outcome.splits)
  moreover have "w3 = snd (eachRepo (getIssues_task gh (length (heap w))) me sched ?w0)"
    using e eachRepoFlattened_world[of "getIssues_task gh (length (heap w))" me sched ?w0] by simp
  ultimately show ?thesis by simp
qed

text \<open>
  C10: \<open>getIssues\<close> never changes an object that existed before the call, so the
  caller's filter object (at any address \<open>a\<close> of the store) has after the call exactly
  the keys and values it had before: the default and the annotations go into the
  object created at line 79.
\<close>

theorem getIssues_keeps_existing_objects:
  assumes "a < length (heap w)"
  shows "heap (snd (getIssues me userFilters gh sched w)) ! a = heap w ! a"
proof -
  let ?P = "\<lambda>w' :: world. length (heap w) < length (heap w') \<and> heap w' ! a = heap w ! a"
  let ?w0 = "w\<lparr>heap := heap w @ [extend_obj [(''state'', Str ''open'')]
        (case userFilters of None \<Rightarrow> [] | Some a \<Rightarrow> if a < length (heap w) then heap w ! a else [])]\<rparr>"
  have "?P (snd (eachRepo (getIssues_task gh (length (heap w))) me sched ?w0))"
  proof (rule eachRepo_invariant)
    show "?P ?w0" using assms by (simp add: nth_append)
  next
    fix i org rep w'
    assume "?P w'"
    then show "?P (snd (getIssues_task gh (length (heap w)) i org rep w'))"
      using assms by (simp add: getIssues_task_def Let_def)
  qed
  then show ?thesis by (simp add: getIssues_world)
qed

theorem getIssues_keeps_existing_objects_witness:
  "(0::nat) < length (heap \<lparr>heap = [[(''state'', Str ''closed'')]], log = []\<rparr>) \<and>
   heap (snd (getIssues two_repos (Some 0) (client [] [] [] []) [0, 1]
                \<lparr>heap = [[(''state'', Str ''closed'')]], log = []\<rparr>)) ! 0 =
     [(''state'', Str ''closed'')]"
  using getIssues_keeps_existing_objects
    [of 0 "\<lparr>heap = [[(''state'', Str ''closed'')]], log = []\<rparr>" two_repos "Some 0"
       "client [] [] [] []" "[0, 1]"]
  by simp

lemma map_of_user_repo:
  "map_of (extend_obj fs [(''user'', u), (''repo'', r)]) = (map_of fs)(''user'' \<mapsto> u, ''repo'' \<mapsto> r)"
  by (simp add: extend_obj_def update_conv')

lemma start_all_getIssues_task:
  assumes "start_all (\<lambda>(i, repoSlug). getIssues_task gh a i (js_nth repoSlug 0) (js_nth repoSlug 1)) xs w
             = (rs, w')"
    and "a < length (heap w)"
  shows "\<exists>ps. log w' = log w @ map (RepoIssues a) ps \<and> length ps = length xs \<and>
           heap w' ! a = (if xs = [] then heap w ! a else last ps) \<and>
           (\<forall>j<length xs. map_of (ps ! j) =
               (map_of (heap w ! a))(''user'' \<mapsto> val (js_nth (snd (xs ! j)) 0),
                                      ''repo'' \<mapsto> val (js_nth (snd (xs ! j)) 1)))"
  using assms
proof (induction xs arbitrary: w rs w')
  case Nil
  then show ?case by simp
next
  case (Cons x xs)
  obtain i repoSlug where x: "x = (i, repoSlug)" by (cases x)
  let ?f = "\<lambda>(i, repoSlug). getIssues_task gh a i (js_nth repoSlug 0) (js_nth repoSlug 1)"
  let ?p = "extend_obj (heap w ! a) [(''user'', val (js_nth repoSlug 0)), (''repo'', val (js_nth repoSlug 1))]"
  obtain r w1 where f: "?f x w = (r, w1)" by (cases "?f x w")
  obtain rs' w2 where s: "start_all ?f xs w1 = (rs', w2)" by (cases "start_all ?f xs w1")
  from Cons.prems(1) f s have w': "w' = w2" by simp
  from f x Cons.prems(2) have w1: "heap w1 ! a = ?p" "log w1 = log w @ [RepoIssues a ?p]"
    "length (heap w1) = length (heap w)"
    by (auto simp: getIssues_task_def Let_def)
  then have a1: "a < length (heap w1)" using Cons.prems(2) by simp
  from Cons.IH[OF s a1] obtain ps where ps: "log w2 = log w1 @ map (RepoIssues a) ps"
    "length ps = length xs" "heap w2 ! a = (if xs = [] then heap w1 ! a else last ps)"
    and each: "\<forall>j<length xs. map_of (ps ! j) =
               (map_of (heap w1 ! a))(''user'' \<mapsto> val (js_nth (snd (xs ! j)) 0),
                                       ''repo'' \<mapsto> val (js_nth (snd (xs ! j)) 1))"
    by blast
  have "log w' = log w @ map (RepoIssues a) (?p # ps)" using ps(1) w1(2) w' by simp
  moreover have "length (?p # ps) = length (x # xs)" using ps(2) by simp
  moreover have "heap w' ! a = (if x # xs = [] then heap w ! a else last (?p # ps))"
    using ps(2,3) w1(1) w' by auto
  moreover have "\<forall>j<length (x # xs). map_of ((?p # ps) ! j) =
               (map_of (heap w ! a))(''user'' \<mapsto> val (js_nth (snd ((x # xs) ! j)) 0),
                                      ''repo'' \<mapsto> val (js_nth (snd ((x # xs) ! j)) 1))"
  proof (intro allI impI)
    fix j assume j: "j < length (x # xs)"
    show "map_of ((?p # ps) ! j) =
               (map_of (heap w ! a))(''user'' \<mapsto> val (js_nth (snd ((x # xs) ! j)) 0),
                                      ''repo'' \<mapsto> val (js_nth (snd ((x # xs) ! j)) 1))"
    proof (cases j)
      case 0
      then show ?thesis by (simp add: x map_of_user_repo)
    next
      case (Suc j')
      with j each have "map_of (ps ! j') =
               (map_of (heap w1 ! a))(''user'' \<mapsto> val (js_nth (snd (xs ! j')) 0),
                                       ''repo'' \<mapsto> val (js_nth (snd (xs ! j')) 1))"
        by simp
      then show ?thesis unfolding Suc w1(1) map_of_user_repo by (auto simp: fun_eq_iff)
    qed
  qed
  ultimately show ?case by blast
qed

text \<open>
  What does hold of the payloads: every call of \<open>getIssues\<close> is handed the one new
  object; when a call is made the object holds the merged filters with that
  repository's \<open>user\<close> and \<open>repo\<close>; and after the last task has started it holds
  what the last call saw.
\<close>

lemma getIssues_payloads:
  "\<exists>ps. log (snd (getIssues me userFilters gh sched w)) =
          log w @ map (RepoIssues (length (heap w))) ps \<and>
        length ps = length (repos me) \<and>
        (repos me \<noteq> [] \<longrightarrow> heap (snd (getIssues me userFilters gh sched w)) ! length (heap w) = last ps) \<and>
        (\<forall>j<length (repos me).
           map_of (ps ! j) ''user'' = Some (val (js_nth (repos me ! j) 0)) \<and>
           map_of (ps ! j) ''repo'' = Some (val (js_nth (repos me ! j) 1)) \<and>
           (\<forall>k. k \<noteq> ''user'' \<and> k \<noteq> ''repo'' \<longrightarrow>
              map_of (ps ! j) k =
                map_of (extend_obj [(''state'', Str ''open'')]
                   (case userFilters of None \<Rightarrow> []
                    | Some a \<Rightarrow> if a < length (heap w) then heap w ! a else [])) k))"
proof -
  let ?a = "length (heap w)"
  let ?F = "extend_obj [(''state'', Str ''open'')]
        (case userFilters of None \<Rightarrow> [] | Some a \<Rightarrow> if a < length (heap w) then heap w ! a else [])"
  let ?w0 = "w\<lparr>heap := heap w @ [?F]\<rparr>"
  let ?f = "\<lambda>(i, repoSlug). getIssues_task gh ?a i (js_nth repoSlug 0) (js_nth repoSlug 1)"
  obtain rs w1 where s: "start_all ?f (enumerate 0 (repos me)) ?w0 = (rs, w1)"
    by (cases "start_all ?f (enumerate 0 (repos me)) ?w0")
  then have w1: "snd (getIssues me userFilters gh sched w) = w1"
    by (simp add: getIssues_world eachRepo_def)
  have "?a < length (heap ?w0)" by simp
  from start_all_getIssues_task[OF s this] obtain ps where
    ps: "log w1 = log ?w0 @ map (RepoIssues ?a) ps" "length ps = length (enumerate 0 (repos me))"
    "heap w1 ! ?a = (if enumerate 0 (repos me) = [] then heap ?w0 ! ?a else last ps)"
    and each: "\<forall>j<length (enumerate 0 (repos me)). map_of (ps ! j) =
               (map_of (heap ?w0 ! ?a))(''user'' \<mapsto> val (js_nth (snd (enumerate 0 (repos me) ! j)) 0),
                                        ''repo'' \<mapsto> val (js_nth (snd (enumerate 0 (repos me) ! j)) 1))"
    by blast
  have ne: "enumerate 0 (repos me) = [] \<longleftrightarrow> repos me = []"
    by (metis length_enumerate length_0_conv)
  have "\<forall>j<length (repos me). map_of (ps ! j) =
               (map_of ?F)(''user'' \<mapsto> val (js_nth (repos me ! j) 0),
                           ''repo'' \<mapsto> val (js_nth (repos me ! j) 1))"
    using each by (simp add: nth_enumerate_eq)
  then have "\<forall>j<length (repos me).
           map_of (ps ! j) ''user'' = Some (val (js_nth (repos me ! j) 0)) \<and>
           map_of (ps ! j) ''repo'' = Some (val (js_nth (repos me ! j) 1)) \<and>
           (\<forall>k. k \<noteq> ''user'' \<and> k \<noteq> ''repo'' \<longrightarrow> map_of (ps ! j) k = map_of ?F k)"
    by simp
  moreover have "log w1 = log w @ map (RepoIssues ?a) ps" using ps(1) by simp
  moreover have "length ps = length (repos me)" using ps(2) by simp
  moreover have "repos me \<noteq> [] \<longrightarrow> heap w1 ! ?a = last ps" using ps(3) ne by simp
  ultimately show ?thesis unfolding w1 by blast
qed

text \<open>
  C1 does not hold of the code. With the repositories \<open>a/x\<close> and \<open>b/y\<close>, both
  \<open>repoIssues\<close> calls are handed the same object (address 0), and once the second task
  has started that object, the one handed to the call for \<open>a/x\<close>, carries \<open>user: b\<close>
  and \<open>repo: y\<close>.
\<close>

theorem getIssues_shares_one_filter_object:
  "snd (getIssues two_repos None (client [] [] [] []) [0, 1] start) =
     \<lparr>heap = [[(''state'', Str ''open''), (''user'', Str ''b''), (''repo'', Str ''y'')]],
      log = [RepoIssues 0 [(''state'', Str ''open''), (''user'', Str ''a''), (''repo'', Str ''x'')],
             RepoIssues 0 [(''state'', Str ''open''), (''user'', Str ''b''), (''repo'', Str ''y'')]]\<rparr>"
  by (simp add: getIssues_def getIssues_task_def eachRepoFlattened_def eachRepo_def
      async_parallel_def two_repos_def start_def client_def answers_def
      convertSlugsToObjects_def js_nth_def ToString_def val_def extend_obj_def flatten_def
      sortIssues_def sortBy_def Let_def)


lemma start_all_log:
  assumes "start_all f xs w = (rs, w')"
    and "\<And>x w. snd (f x w) = w\<lparr>log := log w @ [c x]\<rparr>"
  shows "w' = w\<lparr>log := log w @ map c xs\<rparr>"
  using assms
proof (induction xs arbitrary: w rs w')
  case Nil
  then show ?case by simp
next
  case (Cons x xs)
  obtain r w1 where f: "f x w = (r, w1)" by (cases "f x w")
  obtain rs' w2 where s: "start_all f xs w1 = (rs', w2)" by (cases "start_all f xs w1")
  from Cons.prems(1) f s have "w' = w2" by simp
  moreover have "w1 = w\<lparr>log := log w @ [c x]\<rparr>" using Cons.prems(2)[of x w] f by simp
  moreover have "w2 = w1\<lparr>log := log w1 @ map c xs\<rparr>" by (rule Cons.IH[OF s Cons.prems(2)])
  ultimately show ?case by simp
qed

lemma eachRepo_log:
  assumes "\<And>i org rep w. snd (fn i org rep w) = w\<lparr>log := log w @ [c org rep]\<rparr>"
  shows "snd (eachRepo fn me sched w) =
     w\<lparr>log := log w @ map (\<lambda>repoSlug. c (js_nth repoSlug 0) (js_nth repoSlug 1)) (repos me)\<rparr>"
proof -
  let ?f = "\<lambda>(i, repoSlug). fn i (js_nth repoSlug 0) (js_nth repoSlug 1)"
  let ?c = "\<lambda>(i :: nat, repoSlug). c (js_nth repoSlug 0) (js_nth repoSlug 1)"
  obtain funcs w1 where s: "start_all ?f (enumerate 0 (repos me)) w = (funcs, w1)"
    by (cases "start_all ?f (enumerate 0 (repos me)) w")
  have "w1 = w\<lparr>log := log w @ map ?c (enumerate 0 (repos me))\<rparr>"
    by (rule start_all_log[OF s]) (auto simp: assms)
  moreover have "map ?c (enumerate 0 (repos me)) =
      map (\<lambda>repoSlug. c (js_nth repoSlug 0) (js_nth repoSlug 1)) (repos me)"
    by (rule nth_equalityI) (simp_all add: nth_enumerate_eq)
  ultimately show ?thesis using s by (simp add: eachRepo_def)
qed

section \<open>Properties of milestone creation\<close>

lemma map_of_extend_obj:
  "map_of (extend_obj dst src) = map_of dst ++ map_of (rev src)"
  unfolding extend_obj_def
proof (induction src arbitrary: dst)
  case Nil
  then show ?case by simp
next
  case (Cons kv src)
  obtain k v where kv: "kv = (k, v)" by (cases kv)
  have "map_of (fold (\<lambda>(k, v). AList.update k v) src (AList.update k v dst)) =
      map_of (AList.update k v dst) ++ map_of (rev src)"
    by (rule Cons.IH)
  then show ?case by (simp add: kv update_conv' map_add_upd_left)
qed

lemma map_of_rev_distinct:
  "distinct (map fst xs) \<Longrightarrow> map_of (rev xs) = map_of xs"
proof (induction xs)
  case Nil
  then show ?case by simp
next
  case (Cons x xs)
  obtain k v where x: "x = (k, v)" by (cases x)
  from Cons.prems x have k: "k \<notin> dom (map_of xs)" and d: "distinct (map fst xs)"
    by (auto simp: dom_map_of_conv_image_fst)
  have "map_of (rev (x # xs)) = [k \<mapsto> v] ++ map_of xs"
    using Cons.IH[OF d] by (simp add: x)
  also have "\<dots> = map_of xs ++ [k \<mapsto> v]"
    using k by (intro map_add_comm) auto
  finally show ?case by (simp add: x)
qed

lemma createMilestones_payload:
  assumes "distinct (map fst milestone)"
  shows "map_of (extend_obj [(''user'', u), (''repo'', r)] milestone) k =
     (case map_of milestone k of
        Some v \<Rightarrow> Some v
      | None \<Rightarrow> if k = ''user'' then Some u else if k = ''repo'' then Some r else None)"
  by (simp add: map_of_extend_obj map_of_rev_distinct[OF assms] map_add_def split: option.splits)

lemma createMilestones_task_reply:
  "fst (createMilestones_task gh milestone i org rep w) =
     (case createMilestone gh i of
        Inl err \<Rightarrow> Fail (err\<lparr>repo := Some (ToString org @ ''/'' @ ToString rep)\<rparr>)
      | Inr result \<Rightarrow> Succ result)"
  by (simp add: createMilestones_task_def Let_def)

lemma createMilestones_task_world:
  "snd (createMilestones_task gh milestone i org rep w) =
     w\<lparr>log := log w @ [CreateMilestone (extend_obj [(''user'', val org), (''repo'', val rep)] milestone)]\<rparr>"
  by (simp add: createMilestones_task_def Let_def)

text \<open>
  What \<open>createMilestones\<close> does for any template: one \<open>createMilestone\<close> call for
  each entry of \<open>repos\<close>; a payload whose properties are the template's and, where the
  template has no property of that name, the repository's \<open>user\<close> and \<open>repo\<close>; and,
  when every call succeeds, the created milestones in the order of \<open>repos\<close>, whatever
  the order of the answers.
\<close>

lemma createMilestones_calls_and_result:
  assumes "distinct (map fst milestone)"
  shows "log (snd (createMilestones me milestone gh sched w)) =
       log w @ map (\<lambda>repoSlug. CreateMilestone
                      (extend_obj [(''user'', val (js_nth repoSlug 0)),
                                   (''repo'', val (js_nth repoSlug 1))] milestone))
                 (repos me) \<and>
     (\<forall>repoSlug k.
        map_of (extend_obj [(''user'', val (js_nth repoSlug 0)),
                            (''repo'', val (js_nth repoSlug 1))] milestone) k =
          (case map_of milestone k of
             Some v \<Rightarrow> Some v
           | None \<Rightarrow> if k = ''user'' then Some (val (js_nth repoSlug 0))
                     else if k = ''repo'' then Some (val (js_nth repoSlug 1)) else None)) \<and>
     (answers_once (length (repos me)) sched \<and>
      (\<forall>i<length (repos me). createMilestone gh i = Inr (created i)) \<longrightarrow>
        fst (createMilestones me milestone gh sched w) =
          Success (map created [0..<length (repos me)]))"
proof (intro conjI allI impI)
  show "log (snd (createMilestones me milestone gh sched w)) =
       log w @ map (\<lambda>repoSlug. CreateMilestone
                      (extend_obj [(''user'', val (js_nth repoSlug 0)),
                                   (''repo'', val (js_nth repoSlug 1))] milestone))
                 (repos me)"
    unfolding createMilestones_def
    by (subst eachRepo_log[OF createMilestones_task_world]) simp
next
  fix repoSlug k
  show "map_of (extend_obj [(''user'', val (js_nth repoSlug 0)),
                            (''repo'', val (js_nth repoSlug 1))] milestone) k =
          (case map_of milestone k of
             Some v \<Rightarrow> Some v
           | None \<Rightarrow> if k = ''user'' then Some (val (js_nth repoSlug 0))
                     else if k = ''repo'' then Some (val (js_nth repoSlug 1)) else None)"
    by (rule createMilestones_payload[OF assms])
next
  assume a: "answers_once (length (repos me)) sched \<and>
      (\<forall>i<length (repos me). createMilestone gh i = Inr (created i))"
  let ?n = "length (repos me)"
  let ?rs = "map (\<lambda>i. case createMilestone gh i of
        Inl err \<Rightarrow> Fail (err\<lparr>repo := Some (ToString (js_nth (repos me ! i) 0) @ ''/'' @
                                               ToString (js_nth (repos me ! i) 1))\<rparr>)
      | Inr result \<Rightarrow> Succ result) [0..<?n]"
  have "async_parallel ?rs sched = Success (map created [0..<?n])"
  proof (rule async_parallel_all_succeed)
    show "length (map created [0..<?n]) = length ?rs" by simp
    show "\<forall>i<length ?rs. ?rs ! i = Succ (map created [0..<?n] ! i)" using a by simp
    show "answers_once (length ?rs) sched" using a by simp
  qed
  then show "fst (createMilestones me milestone gh sched w) = Success (map created [0..<?n])"
    unfolding createMilestones_def
    by (subst eachRepo_outcome[OF createMilestones_task_reply]) simp
qed

text \<open>The template of the specification, on two repositories answering in reverse order.\<close>

lemma createMilestones_calls_and_result_example:
  "distinct (map fst [(''title'', Str ''Sprint 1''), (''due_on'', Str ''2013-06-01'')]) \<and>
   answers_once 2 [1, 0] \<and>
   createMilestone (client [] [] [] [Inr (sprint 7 ''Sprint 1''), Inr (sprint 3 ''Sprint 1'')]) 0
     = Inr (sprint 7 ''Sprint 1'') \<and>
   createMilestone (client [] [] [] [Inr (sprint 7 ''Sprint 1''), Inr (sprint 3 ''Sprint 1'')]) 1
     = Inr (sprint 3 ''Sprint 1'') \<and>
   log (snd (createMilestones two_repos [(''title'', Str ''Sprint 1''), (''due_on'', Str ''2013-06-01'')]
               (client [] [] [] [Inr (sprint 7 ''Sprint 1''), Inr (sprint 3 ''Sprint 1'')]) [1, 0] start)) =
     [CreateMilestone [(''user'', Str ''a''), (''repo'', Str ''x''), (''title'', Str ''Sprint 1''),
                       (''due_on'', Str ''2013-06-01'')],
      CreateMilestone [(''user'', Str ''b''), (''repo'', Str ''y''), (''title'', Str ''Sprint 1''),
                       (''due_on'', Str ''2013-06-01'')]] \<and>
   fst (createMilestones two_repos [(''title'', Str ''Sprint 1''), (''due_on'', Str ''2013-06-01'')]
          (client [] [] [] [Inr (sprint 7 ''Sprint 1''), Inr (sprint 3 ''Sprint 1'')]) [1, 0] start) =
     Success [sprint 7 ''Sprint 1'', sprint 3 ''Sprint 1'']"
proof -
  let ?tpl = "[(''title'', Str ''Sprint 1''), (''due_on'', Str ''2013-06-01'')]"
  let ?gh = "client [] [] [] [Inr (sprint 7 ''Sprint 1''), Inr (sprint 3 ''Sprint 1'')]"
  let ?created = "answers [sprint 7 ''Sprint 1'', sprint 3 ''Sprint 1''] (sprint 0 [])"
  have d: "distinct (map fst ?tpl)" by simp
  have n: "length (repos two_repos) = 2"
    by (simp add: two_repos_def convertSlugsToObjects_def)
  have rp: "repos two_repos = [[''a'', ''x''], [''b'', ''y'']]"
    by (simp add: two_repos_def convertSlugsToObjects_def)
  have once: "answers_once (length (repos two_repos)) [1, 0]"
    unfolding n by (auto simp: answers_once_def)
  have c0: "createMilestone ?gh 0 = Inr (sprint 7 ''Sprint 1'')"
    and c1: "createMilestone ?gh 1 = Inr (sprint 3 ''Sprint 1'')"
    by (simp_all add: client_def answers_def)
  have all: "\<forall>i<length (repos two_repos). createMilestone ?gh i = Inr (?created i)"
    unfolding n using c0 c1 by (auto simp: less_Suc_eq numeral_2_eq_2 answers_def)
  have upt: "[0..<length (repos two_repos)] = [0, 1]"
    unfolding n by (simp add: upt_rec)
  from createMilestones_calls_and_result [OF d, of two_repos ?gh "[1, 0]" start ?created] once all
  have "log (snd (createMilestones two_repos ?tpl ?gh [1, 0] start)) =
       log start @ map (\<lambda>repoSlug. CreateMilestone
                      (extend_obj [(''user'', val (js_nth repoSlug 0)),
                                   (''repo'', val (js_nth repoSlug 1))] ?tpl))
                 (repos two_repos)"
    and "fst (createMilestones two_repos ?tpl ?gh [1, 0] start) =
          Success (map ?created [0..<length (repos two_repos)])"
    by blast+
  then have "log (snd (createMilestones two_repos ?tpl ?gh [1, 0] start)) =
     [CreateMilestone [(''user'', Str ''a''), (''repo'', Str ''x''), (''title'', Str ''Sprint 1''),
                       (''due_on'', Str ''2013-06-01'')],
      CreateMilestone [(''user'', Str ''b''), (''repo'', Str ''y''), (''title'', Str ''Sprint 1''),
                       (''due_on'', Str ''2013-06-01'')]]"
    and "fst (createMilestones two_repos ?tpl ?gh [1, 0] start) =
     Success [sprint 7 ''Sprint 1'', sprint 3 ''Sprint 1'']"
    unfolding upt rp by (simp_all add: start_def js_nth_def val_def extend_obj_def answers_def)
  with d once c0 c1 n show ?thesis by simp
qed

text \<open>
  For a template that has neither a \<open>user\<close> nor a \<open>repo\<close> property, every payload
  holds the organization and the name of its repository and every property of the
  template.
\<close>

lemma createMilestones_plain_template:
  assumes "distinct (map fst milestone)"
    and "''user'' \<notin> fst ` set milestone" and "''repo'' \<notin> fst ` set milestone"
  shows "\<exists>ps. log (snd (createMilestones me milestone gh sched w)) = log w @ map CreateMilestone ps \<and>
     length ps = length (repos me) \<and>
     (\<forall>i<length (repos me).
        map_of (ps ! i) ''user'' = Some (val (js_nth (repos me ! i) 0)) \<and>
        map_of (ps ! i) ''repo'' = Some (val (js_nth (repos me ! i) 1)) \<and>
        (\<forall>k v. map_of milestone k = Some v \<longrightarrow> map_of (ps ! i) k = Some v))"
proof -
  let ?payload = "\<lambda>repoSlug. extend_obj [(''user'', val (js_nth repoSlug 0)),
                                         (''repo'', val (js_nth repoSlug 1))] milestone"
  let ?ps = "map ?payload (repos me)"
  have none: "map_of milestone ''user'' = None" "map_of milestone ''repo'' = None"
    using assms(2,3) by (simp_all add: map_of_eq_None_iff)
  have "log (snd (createMilestones me milestone gh sched w)) = log w @ map CreateMilestone ?ps"
    using createMilestones_calls_and_result [OF assms(1), of me gh sched w]
    by (simp add: comp_def)
  moreover have "length ?ps = length (repos me)" by simp
  moreover have "\<forall>i<length (repos me).
        map_of (?ps ! i) ''user'' = Some (val (js_nth (repos me ! i) 0)) \<and>
        map_of (?ps ! i) ''repo'' = Some (val (js_nth (repos me ! i) 1)) \<and>
        (\<forall>k v. map_of milestone k = Some v \<longrightarrow> map_of (?ps ! i) k = Some v)"
    using none by (simp add: createMilestones_payload[OF assms(1)])
  ultimately show ?thesis by blast
qed


section \<open>Properties of the milestone operations\<close>

lemma getMilestones_task_reply:
  "fst (getMilestones_task gh i org rep w) =
     (case getAllMilestones gh i of
        Inl err \<Rightarrow> Fail (err\<lparr>repo := Some (ToString org @ ''/'' @ ToString rep)\<rparr>)
      | Inr milestones \<Rightarrow>
          Succ (map (\<lambda>milestone. milestone\<lparr>repo := Some (ToString org @ ''/'' @ ToString rep)\<rparr>)
                 milestones))"
  by (simp add: getMilestones_task_def)

lemma getMilestones_task_world:
  "snd (getMilestones_task gh i org rep w) =
     w\<lparr>log := log w @ [GetAllMilestones [(''user'', val org), (''repo'', val rep)]]\<rparr>"
  by (simp add: getMilestones_task_def)

lemma getMilestones_outcome:
  "fst (getMilestones me gh sched w) =
     (case async_parallel
             (map (\<lambda>i. case getAllMilestones gh i of
                     Inl err \<Rightarrow> Fail (err\<lparr>repo := Some (repo_slug (repos me ! i))\<rparr>)
                   | Inr milestones \<Rightarrow>
                       Succ (map (\<lambda>milestone. milestone\<lparr>repo := Some (repo_slug (repos me ! i))\<rparr>)
                              milestones))
                [0..<length (repos me)]) sched of
        Failure err data \<Rightarrow> Failure err ()
      | Success data \<Rightarrow> Success (groupBy title (flatten data))
      | Uncaught x \<Rightarrow> Uncaught x
      | Pending \<Rightarrow> Pending)"
proof -
  obtain r w1 where e: "eachRepoFlattened (getMilestones_task gh) me sched w = (r, w1)"
    by (cases "eachRepoFlattened (getMilestones_task gh) me sched w")
  have "fst (eachRepoFlattened (getMilestones_task gh) me sched w) = r"
    using e by simp
  then have r: "r = (case async_parallel
             (map (\<lambda>i. case getAllMilestones gh i of
                     Inl err \<Rightarrow> Fail (err\<lparr>repo := Some (repo_slug (repos me ! i))\<rparr>)
                   | Inr milestones \<Rightarrow>
                       Succ (map (\<lambda>milestone. milestone\<lparr>repo := Some (repo_slug (repos me ! i))\<rparr>)
                              milestones))
                [0..<length (repos me)]) sched of
        Failure err data \<Rightarrow> Failure err (flatten_slots data)
      | Success data \<Rightarrow> Success (flatten data)
      | Uncaught x \<Rightarrow> Uncaught x
      | Pending \<Rightarrow> Pending)"
    unfolding repo_slug_def
    by (subst (asm) eachRepoFlattened_outcome[OF getMilestones_task_reply]) simp
  have "fst (getMilestones me gh sched w) =
     (case r of Failure err ms \<Rightarrow> Failure err () | Success ms \<Rightarrow> Success (groupBy title ms)
      | Uncaught x \<Rightarrow> Uncaught x | Pending \<Rightarrow> Pending)"
    using e by (simp add: getMilestones_def split: outcome.splits)
  then show ?thesis unfolding r by (simp split: outcome.splits)
qed

lemma getMilestones_world:
  "snd (getMilestones me gh sched w) =
     w\<lparr>log := log w @ map (\<lambda>repoSlug. GetAllMilestones [(''user'', val (js_nth repoSlug 0)),
                                                         (''repo'', val (js_nth repoSlug 1))])
                        (repos me)\<rparr>"
proof -
  obtain r w1 where e: "eachRepoFlattened (getMilestones_task gh) me sched w = (r, w1)"
    by (cases "eachRepoFlattened (getMilestones_task gh) me sched w")
  then have "snd (getMilestones me gh sched w) = w1"
    by (simp add: getMilestones_def split: outcome.splits)
  moreover have "w1 = snd (eachRepo (getMilestones_task gh) me sched w)"
    using e eachRepoFlattened_world[of "getMilestones_task gh" me sched w] by simp
  ultimately show ?thesis
    by (simp add: eachRepo_log[OF getMilestones_task_world])
qed

lemma groupBy_members:
  assumes "map_of (groupBy f xs) k = Some members"
  shows "set members \<subseteq> set xs"
proof -
  let ?step = "\<lambda>x result. case map_of result (f x) of
                 None \<Rightarrow> result @ [(f x, [x])]
               | Some members \<Rightarrow> AList.update (f x) (members @ [x]) result"
  have "\<forall>k g. map_of (fold ?step ys acc) k = Some g \<longrightarrow> set g \<subseteq> S"
    if "\<forall>k g. map_of acc k = Some g \<longrightarrow> set g \<subseteq> S" "set ys \<subseteq> S"
    for ys :: "'a list" and acc :: "(string \<times> 'a list) list" and S
    using that
  proof (induction ys arbitrary: acc)
    case Nil
    then show ?case by simp
  next
    case (Cons y ys)
    have "\<forall>k g. map_of (?step y acc) k = Some g \<longrightarrow> set g \<subseteq> S"
      using Cons.prems
      by (auto simp: update_conv' map_add_def split: option.splits if_splits)
    moreover have "set ys \<subseteq> S" using Cons.prems(2) by simp
    ultimately show ?case using Cons.IH[of "?step y acc"] by simp
  qed
  from this[of "[]" "set xs" xs] assms show ?thesis
    by (simp add: groupBy_def)
qed

lemma getMilestones_tagged:
  assumes "fst (getMilestones me gh sched w) = Success milestones"
    and "map_of milestones t = Some matches"
  shows "\<forall>m\<in>set matches. repo m \<noteq> None"
proof -
  let ?rs = "map (\<lambda>i. case getAllMilestones gh i of
                     Inl err \<Rightarrow> Fail (err\<lparr>repo := Some (repo_slug (repos me ! i))\<rparr>)
                   | Inr milestones \<Rightarrow>
                       Succ (map (\<lambda>milestone. milestone\<lparr>repo := Some (repo_slug (repos me ! i))\<rparr>)
                              milestones))
                [0..<length (repos me)]"
  from assms(1) obtain data where d: "async_parallel ?rs sched = Success data"
    and g: "milestones = groupBy title (flatten data)"
    by (auto simp: getMilestones_outcome split: outcome.splits)
  from async_parallel_Success[OF d]
  have len: "length data = length (repos me)" and each: "\<forall>i<length (repos me). ?rs ! i = Succ (data ! i)"
    by simp_all
  have "repo m \<noteq> None" if "m \<in> set (flatten data)" for m
  proof -
    from that obtain ms' where "ms' \<in> set data" "m \<in> set ms'"
      by (auto simp: flatten_def)
    then obtain i where i: "i < length data" "m \<in> set (data ! i)"
      by (metis in_set_conv_nth)
    with each len have e: "?rs ! i = Succ (data ! i)" by simp
    have "\<exists>ms. data ! i = map (\<lambda>milestone. milestone\<lparr>repo := Some (repo_slug (repos me ! i))\<rparr>) ms"
    proof (cases "getAllMilestones gh i")
      case (Inl a)
      with e i len show ?thesis by simp
    next
      case (Inr b)
      with e i len
      have "data ! i = map (\<lambda>milestone. milestone\<lparr>repo := Some (repo_slug (repos me ! i))\<rparr>) b"
        by simp
      then show ?thesis by blast
    qed
    with i(2) show ?thesis by auto
  qed
  moreover have "set matches \<subseteq> set (flatten data)"
    using groupBy_members assms(2) g by metis
  ultimately show ?thesis by blast
qed

lemma those_map_total:
  assumes "\<forall>x\<in>set xs. h x \<noteq> None"
  shows "\<exists>ys. those (map h xs) = Some ys \<and> length ys = length xs"
proof -
  have "map h xs = map Some (map (\<lambda>x. the (h x)) xs)" using assms by auto
  then have "those (map h xs) = Some (map (\<lambda>x. the (h x)) xs)"
    by (simp only: those_eq_Some)
  then show ?thesis by simp
qed

lemma updater_reply:
  "fst (updater gh x w) =
     (case updateMilestone gh (fst x) of Inl err \<Rightarrow> Throw ReferenceError | Inr resp \<Rightarrow> Succ resp)"
  by (cases x) (auto simp: updater_def)

text \<open>
  C6 does not hold of the code. Whenever the milestone aggregation fails,
  \<open>closeMilestones\<close> does not pass the error on: line 144 reads \<open>milestones[title]\<close>
  while \<open>milestones\<close> is \<open>undefined\<close>, which raises a \<open>TypeError\<close> before line 145
  tests \<open>err\<close>, and the caller's callback is never called.
\<close>

theorem closeMilestones_aggregation_failure_raises:
  assumes "fst (getMilestones me gh sched w) = Failure err u"
  shows "fst (closeMilestones me t gh sched sched' w) = Uncaught TypeError"
  using assms
  by (cases "getMilestones me gh sched w") (simp add: closeMilestones_def)

theorem closeMilestones_aggregation_failure_raises_witness:
  "fst (getMilestones one_repo (client [] [Inl boom] [] []) [0] start) =
     Failure (boom\<lparr>repo := Some ''a/x''\<rparr>) () \<and>
   fst (closeMilestones one_repo ''Sprint 1'' (client [] [Inl boom] [] []) [0] [] start) =
     Uncaught TypeError"
proof -
  have f: "fst (getMilestones one_repo (client [] [Inl boom] [] []) [0] start) =
     Failure (boom\<lparr>repo := Some ''a/x''\<rparr>) ()"
    by (simp add: getMilestones_def getMilestones_task_def eachRepoFlattened_def eachRepo_def
        async_parallel_def one_repo_def client_def answers_def convertSlugsToObjects_def
        js_nth_def ToString_def)
  from closeMilestones_aggregation_failure_raises [OF f, of "''Sprint 1''" "[]"] f
  show ?thesis by simp
qed

text \<open>
  C7 does not hold of the code. Whenever an \<open>updateMilestone\<close> call made by
  \<open>closeMilestones\<close> fails (and every update is answered), the handler raises a
  \<open>ReferenceError\<close> at line 163, where \<open>org\<close> and \<open>repo\<close> are not in scope; no error
  object with a slug reaches the caller.
\<close>

theorem closeMilestones_failed_update_raises:
  assumes "fst (getMilestones me gh sched w) = Success milestones"
    and "js_get milestones t = Own matches"
    and "answers_once (length matches) sched'"
    and "k < length matches" and "updateMilestone gh k = Inl err"
  shows "fst (closeMilestones me t gh sched sched' w) = Uncaught ReferenceError"
proof -
  obtain w1 where g: "getMilestones me gh sched w = (Success milestones, w1)"
    using assms(1) by (cases "getMilestones me gh sched w") simp
  from assms(2) have own: "map_of milestones t = Some matches"
    by (simp add: js_get_def split: option.splits)
  from getMilestones_tagged[OF assms(1) own]
  have "\<forall>m\<in>set matches. map_option (split CHR ''/'') (repo m) \<noteq> None" by simp
  from those_map_total[OF this] obtain splitSlugs where
    s: "those (map (\<lambda>match. map_option (split CHR ''/'') (repo match)) matches) = Some splitSlugs"
    and len: "length splitSlugs = length matches"
    by blast
  let ?xs = "enumerate 0 (zip matches splitSlugs)"
  let ?g = "\<lambda>x :: nat \<times> milestone \<times> string list.
     case updateMilestone gh (fst x) of Inl err \<Rightarrow> Throw ReferenceError | Inr resp \<Rightarrow> Succ resp"
  obtain updaters w2 where u: "start_all (updater gh) ?xs w1 = (updaters, w2)"
    by (cases "start_all (updater gh) ?xs w1")
  have us: "updaters = map ?g ?xs"
    by (rule start_all_replies[OF u]) (rule updater_reply)
  have n: "length updaters = length matches" using us len by simp
  have nth: "updaters ! i = ?g (i, zip matches splitSlugs ! i)" if "i < length matches" for i
    using that len us by (simp add: nth_enumerate_eq)
  have "async_parallel updaters sched' = Uncaught ReferenceError"
  proof (rule async_parallel_one_throws)
    show "k < length updaters" using assms(4) n by simp
    show "updaters ! k = Throw ReferenceError" using nth[OF assms(4)] assms(5) by simp
    show "\<forall>i<length updaters. (\<exists>v. updaters ! i = Succ v) \<or> updaters ! i = Throw ReferenceError"
      using nth n by (auto split: sum.splits)
    show "answers_once (length updaters) sched'" using assms(3) n by simp
  qed
  with g assms(2) s u show ?thesis by (simp add: closeMilestones_def)
qed


theorem closeMilestones_failed_update_raises_witness:
  "fst (getMilestones one_repo (client [] [Inr [sprint 4 ''Sprint 1'']] [Inl boom] []) [0] start) =
     Success [(''Sprint 1'', [(sprint 4 ''Sprint 1'')\<lparr>repo := Some ''a/x''\<rparr>])] \<and>
   js_get [(''Sprint 1'', [(sprint 4 ''Sprint 1'')\<lparr>repo := Some ''a/x''\<rparr>])] ''Sprint 1'' =
     Own [(sprint 4 ''Sprint 1'')\<lparr>repo := Some ''a/x''\<rparr>] \<and>
   answers_once 1 [0] \<and>
   updateMilestone (client [] [Inr [sprint 4 ''Sprint 1'']] [Inl boom] []) 0 = Inl boom \<and>
   fst (closeMilestones one_repo ''Sprint 1'' (client [] [Inr [sprint 4 ''Sprint 1'']] [Inl boom] [])
          [0] [0] start) = Uncaught ReferenceError"
proof -
  let ?gh = "client [] [Inr [sprint 4 ''Sprint 1'']] [Inl boom] []"
  let ?matches = "[(sprint 4 ''Sprint 1'')\<lparr>repo := Some ''a/x''\<rparr>]"
  have g: "fst (getMilestones one_repo ?gh [0] start) = Success [(''Sprint 1'', ?matches)]"
    by (simp add: getMilestones_def getMilestones_task_def eachRepoFlattened_def eachRepo_def
        async_parallel_def one_repo_def client_def answers_def convertSlugsToObjects_def
        js_nth_def ToString_def flatten_def groupBy_def sprint_def)
  have own: "js_get [(''Sprint 1'', ?matches)] ''Sprint 1'' = Own ?matches"
    by (simp add: js_get_def)
  have once: "answers_once (length ?matches) [0]"
    by (auto simp: answers_once_def)
  have k: "(0::nat) < length ?matches" by simp
  have bad: "updateMilestone ?gh 0 = Inl boom" by (simp add: client_def answers_def)
  from closeMilestones_failed_update_raises [OF g own once k bad] g own once bad
  show ?thesis by simp
qed

text \<open>
  No error object ever reaches the caller of \<open>closeMilestones\<close>: with a failed
  aggregation it raises at line 144, with a failed update at line 163.
\<close>

lemma closeMilestones_reports_no_error:
  "fst (closeMilestones me t gh sched sched' w) \<noteq> Failure err p"
proof
  assume f: "fst (closeMilestones me t gh sched sched' w) = Failure err p"
  obtain r w1 where g: "getMilestones me gh sched w = (r, w1)"
    by (cases "getMilestones me gh sched w")
  from f g obtain milestones where r: "r = Success milestones"
    by (cases r) (simp_all add: closeMilestones_def)
  have empty: "async_parallel ([] :: (js_error, milestone) reply list) sched' \<noteq> Failure err p"
    by (simp add: async_parallel_def)
  from f g r empty obtain matches where own: "js_get milestones t = Own matches"
    by (cases "js_get milestones t")
      (auto simp: closeMilestones_def split: inherited.splits if_splits)
  from f g r own obtain splitSlugs where
    s: "those (map (\<lambda>match. map_option (split CHR ''/'') (repo match)) matches) = Some splitSlugs"
    by (cases "those (map (\<lambda>match. map_option (split CHR ''/'') (repo match)) matches)")
      (simp_all add: closeMilestones_def)
  let ?xs = "enumerate 0 (zip matches splitSlugs)"
  obtain updaters w2 where u: "start_all (updater gh) ?xs w1 = (updaters, w2)"
    by (cases "start_all (updater gh) ?xs w1")
  have us: "updaters = map (\<lambda>x. case updateMilestone gh (fst x) of
      Inl err \<Rightarrow> Throw ReferenceError | Inr resp \<Rightarrow> Succ resp) ?xs"
    by (rule start_all_replies[OF u]) (rule updater_reply)
  from f g r own s u have "async_parallel updaters sched' = Failure err p"
    by (simp add: closeMilestones_def)
  from async_parallel_Failure[OF this] obtain i where "i < length updaters" "updaters ! i = Fail err"
    by blast
  then show False unfolding us by (simp split: sum.splits)
qed

text \<open>
  The miss that works: a title that is neither a group nor a member of
  \<open>Object.prototype\<close> gives the empty list, and the only calls made are the reads of
  \<open>getMilestones\<close>.
\<close>

lemma closeMilestones_miss:
  assumes "fst (getMilestones me gh sched w) = Success milestones"
    and "map_of milestones t = None" and "map_of Object_prototype t = None"
  shows "closeMilestones me t gh sched sched' w =
     (Success [],
      w\<lparr>log := log w @ map (\<lambda>repoSlug. GetAllMilestones [(''user'', val (js_nth repoSlug 0)),
                                                          (''repo'', val (js_nth repoSlug 1))])
                         (repos me)\<rparr>)"
proof -
  obtain w1 where g: "getMilestones me gh sched w = (Success milestones, w1)"
    using assms(1) by (cases "getMilestones me gh sched w") simp
  then have "w1 = snd (getMilestones me gh sched w)" by simp
  then have w1: "w1 = w\<lparr>log := log w @ map (\<lambda>repoSlug. GetAllMilestones
      [(''user'', val (js_nth repoSlug 0)), (''repo'', val (js_nth repoSlug 1))]) (repos me)\<rparr>"
    by (simp only: getMilestones_world)
  have "js_get milestones t = Absent" using assms(2,3) by (simp add: js_get_def)
  with g w1 show ?thesis by (simp add: closeMilestones_def)
qed

text \<open>Whatever a missing title inherits, no update is sent.\<close>

lemma closeMilestones_miss_sends_no_update:
  assumes "fst (getMilestones me gh sched w) = Success milestones"
    and "map_of milestones t = None"
  shows "snd (closeMilestones me t gh sched sched' w) = snd (getMilestones me gh sched w)"
proof -
  obtain w1 where g: "getMilestones me gh sched w = (Success milestones, w1)"
    using assms(1) by (cases "getMilestones me gh sched w") simp
  from assms(2) have "js_get milestones t \<noteq> Own matches" for matches
    by (simp add: js_get_def split: option.splits)
  with g show ?thesis
    by (cases "js_get milestones t")
      (auto simp: closeMilestones_def split: inherited.splits)
qed

text \<open>
  C8 does not hold of the code for every title. The groups hold only \<open>Sprint 1\<close>; the
  title \<open>constructor\<close> is not among them, but \<open>milestones[title]\<close> finds the function
  that every object inherits, \<open>!matches\<close> is false, and mapping over it raises a
  \<open>TypeError\<close> instead of returning the empty list.
\<close>

theorem closeMilestones_inherited_title_raises:
  "fst (getMilestones one_repo (client [] [Inr [sprint 4 ''Sprint 1'']] [] []) [0] start) =
     Success [(''Sprint 1'', [(sprint 4 ''Sprint 1'')\<lparr>repo := Some ''a/x''\<rparr>])] \<and>
   map_of [(''Sprint 1'', [(sprint 4 ''Sprint 1'')\<lparr>repo := Some ''a/x''\<rparr>])] ''constructor'' = None \<and>
   fst (closeMilestones one_repo ''constructor'' (client [] [Inr [sprint 4 ''Sprint 1'']] [] [])
          [0] [] start) = Uncaught TypeError"
  by (simp add: closeMilestones_def getMilestones_def getMilestones_task_def eachRepoFlattened_def
      eachRepo_def async_parallel_def one_repo_def client_def answers_def
      convertSlugsToObjects_def js_nth_def ToString_def flatten_def groupBy_def sprint_def
      js_get_def Object_prototype_def)

end
